theory Spec2Isabelle
  imports Main "HOL-Library.Word" "HOL-Library.Multiset"
begin

section \<open>The consensus cache of \<open>src/or/conscache.c\<close>\<close>

text \<open>
  The cache keeps reference-counted entries, each a handle to one labelled file of a
  storage directory. Entries are C heap objects reached through pointers: the cache's
  collection is a list of pointers, callers keep pointers of their own, and an entry
  outlives its membership in the collection for as long as somebody holds a reference.
  The model therefore has an explicit store from addresses to entries, a store of caches,
  and the contents of the storage directories.
\<close>

subsection \<open>Data\<close>

type_synonym addr = nat
type_synonym bytes = "8 word list"

text \<open>A \<open>config_line_t\<close> list: the key/value pairs in their order.\<close>
type_synonym config_line_t = "(string \<times> string) list"

definition CCE_MAGIC :: "32 word" where
  "CCE_MAGIC = 0x17162253"

text \<open>
  \<open>time_t\<close> values are only assigned and compared in this file, never computed with, so
  they are integers. \<open>TIME_MAX\<close> comes from a header outside \<open>src/\<close>; it is the largest
  value of \<open>time_t\<close>, here that of a 64-bit one.
\<close>
definition TIME_MAX :: int where
  "TIME_MAX = 2 ^ 63 - 1"

text \<open>
  \<open>struct consensus_cache_entry_t\<close>. \<open>refcnt\<close> is an \<open>int32_t\<close>: a 32-bit word read with
  \<open>sint\<close>. \<open>map_ptr\<close> is the field \<open>map\<close> (the name is taken in HOL); \<open>None\<close> is the
  \<open>NULL\<close> pointer there, in \<open>body\<close> and in \<open>in_cache\<close>. The weak-handle head of the struct
  is left out: no function below reads it.
\<close>
record consensus_cache_entry_t =
  magic :: "32 word"
  refcnt :: "32 word"
  can_remove :: bool
  release_aggressively :: bool
  fname :: string
  labels :: config_line_t
  in_cache :: "addr option"
  unused_since :: int
  map_ptr :: "bytes option"
  bodylen :: nat
  body :: "bytes option"

text \<open>
  \<open>struct consensus_cache_t\<close>. \<open>dir\<close> is the handle of the storage directory, here the
  directory's name; \<open>entries\<close> is the smartlist of entry pointers, \<open>None\<close> when \<open>NULL\<close>.
\<close>
record consensus_cache_t =
  dir :: string
  entries :: "addr list option"

text \<open>
  A stored file: its labels and its body, or \<open>None\<close> for a file that cannot be mapped
  (unreadable or corrupt).
\<close>
type_synonym stored_file = "(config_line_t \<times> bytes) option"
type_synonym storage_contents = "(string \<times> stored_file) list"

text \<open>
  The program state: the allocated entries, the allocated caches, the files of every
  storage directory, the cached clock read by \<open>approx_time()\<close>, and the next address
  the allocator hands out.
\<close>
record world =
  ents :: "addr \<rightharpoonup> consensus_cache_entry_t"
  caches :: "addr \<rightharpoonup> consensus_cache_t"
  disk :: "string \<Rightarrow> storage_contents"
  approx_time :: int
  next_ptr :: addr

text \<open>
  Dereferencing a pointer that is \<open>NULL\<close> or whose object has been freed is undefined in
  C. Every function that follows a pointer returns \<open>Inl\<close> of a fault there, and \<open>Inr\<close> of
  its result otherwise.
\<close>
datatype fault = Dangling | NullDeref

subsection \<open>The storage directory and the containers\<close>

text \<open>
  Modelled from the spec: the storage backend (\<open>storagedir.c\<close>) is not under \<open>src/\<close>.
  The spec gives its contract: \<open>save_labeled\<close> persists a labelled blob to a uniquely
  named file and returns the name, or fails; \<open>list_files\<close> enumerates the names;
  \<open>map_labeled\<close> gives the labels, body and body length of a file, or fails;
  \<open>remove_file\<close> deletes a file by name. The name the backend picks, or its failure, is
  the argument \<open>pick\<close>; a name already in use is a failed write, and a failed write
  leaves the directory as it was.
\<close>
definition storage_dir_save_labeled_to_file ::
  "storage_contents \<Rightarrow> config_line_t \<Rightarrow> bytes \<Rightarrow> string option
   \<Rightarrow> storage_contents \<times> int \<times> string option" where
  "storage_dir_save_labeled_to_file d ls data pick =
     (case pick of
        None \<Rightarrow> (d, - 1, None)
      | Some f \<Rightarrow>
          if f \<in> set (map fst d) then (d, - 1, None)
          else (d @ [(f, Some (ls, data))], 0, Some f))"

text \<open>Modelled from the spec: \<open>list_files\<close> of the storage backend.\<close>
definition storage_dir_list :: "storage_contents \<Rightarrow> string list" where
  "storage_dir_list d = map fst d"

text \<open>
  Modelled from the spec: \<open>map_labeled\<close> of the storage backend; the result is the
  mapping, the labels, the body and the body's length.
\<close>
definition storage_dir_map_labeled ::
  "storage_contents \<Rightarrow> string \<Rightarrow> (bytes \<times> config_line_t \<times> bytes \<times> nat) option" where
  "storage_dir_map_labeled d f =
     (case map_of d f of
        Some (Some (ls, b)) \<Rightarrow> Some (b, ls, b, length b)
      | _ \<Rightarrow> None)"

text \<open>Modelled from the spec: \<open>remove_file\<close> of the storage backend.\<close>
definition storage_dir_remove_file :: "storage_contents \<Rightarrow> string \<Rightarrow> storage_contents" where
  "storage_dir_remove_file d f = filter (\<lambda>x. fst x \<noteq> f) d"

text \<open>
  Modelled from the spec: \<open>config_line_find\<close> and \<open>config_lines_dup\<close> (\<open>confline.c\<close>) are
  not under \<open>src/\<close>. The spec has a label lookup return the value of a key or none, with
  first-wins as the policy for duplicate keys, and has \<open>add\<close> store a deep copy of the
  labels.
\<close>
definition config_line_find :: "config_line_t \<Rightarrow> string \<Rightarrow> (string \<times> string) option" where
  "config_line_find ls key = find (\<lambda>cl. fst cl = key) ls"

definition config_lines_dup :: "config_line_t \<Rightarrow> config_line_t" where
  "config_lines_dup ls = ls"

text \<open>
  Modelled from the spec: the smartlist container (\<open>container.h\<close>, \<open>container.c\<close>) is
  not under \<open>src/\<close>. The spec calls the collection unordered and asks only that removal
  be safe while iterating; it promises no order after a removal. In the repository's
  container \<open>SMARTLIST_DEL_CURRENT\<close> is \<open>smartlist_del\<close> at the current index followed by
  a decrement of the loop's index and length, and \<open>smartlist_del\<close> overwrites the slot
  with the last element and shortens the list by one, which is what this definition
  does. The loops below call it only with an index inside the list.
\<close>
definition smartlist_del :: "'a list \<Rightarrow> nat \<Rightarrow> 'a list" where
  "smartlist_del sl idx = butlast (sl[idx := last sl])"

subsection \<open>Operations on one entry\<close>

text \<open>
  The functions of this subsection take the entry a valid pointer points to and return
  it as the function leaves it.
\<close>

definition consensus_cache_entry_get_value ::
  "consensus_cache_entry_t \<Rightarrow> string \<Rightarrow> string option" where
  "consensus_cache_entry_get_value ent key =
     (case config_line_find (labels ent) key of
        Some match \<Rightarrow> Some (snd match)
      | None \<Rightarrow> None)"

definition consensus_cache_entry_get_labels :: "consensus_cache_entry_t \<Rightarrow> config_line_t" where
  "consensus_cache_entry_get_labels ent = labels ent"

definition consensus_cache_entry_unmap :: "consensus_cache_entry_t \<Rightarrow> consensus_cache_entry_t" where
  "consensus_cache_entry_unmap ent =
     (let ent1 = ent\<lparr>unused_since := TIME_MAX\<rparr>
      in if map_ptr ent1 = None then ent1
         else ent1\<lparr>map_ptr := None, body := None, bodylen := 0, unused_since := TIME_MAX\<rparr>)"

text \<open>\<open>consensus_cache_entry_map\<close>, given the files of the cache's directory.\<close>
definition consensus_cache_entry_map ::
  "storage_contents \<Rightarrow> consensus_cache_entry_t \<Rightarrow> consensus_cache_entry_t" where
  "consensus_cache_entry_map d ent =
     (if map_ptr ent \<noteq> None then ent
      else (case storage_dir_map_labeled d (fname ent) of
              None \<Rightarrow> ent\<lparr>map_ptr := None, unused_since := TIME_MAX\<rparr>
            | Some (m, ls, b, n) \<Rightarrow>
                ent\<lparr>map_ptr := Some m, body := Some b, bodylen := n,
                    unused_since := TIME_MAX\<rparr>))"

definition consensus_cache_entry_incref :: "consensus_cache_entry_t \<Rightarrow> consensus_cache_entry_t" where
  "consensus_cache_entry_incref ent =
     (if magic ent \<noteq> CCE_MAGIC then ent
      else ent\<lparr>refcnt := refcnt ent + 1, unused_since := TIME_MAX\<rparr>)"

text \<open>
  \<open>consensus_cache_entry_decref\<close> on a non-\<open>NULL\<close> pointer, at clock \<open>now\<close>. The result
  \<open>None\<close> is the entry freed.
\<close>
definition consensus_cache_entry_decref ::
  "int \<Rightarrow> consensus_cache_entry_t \<Rightarrow> consensus_cache_entry_t option" where
  "consensus_cache_entry_decref now ent =
     (if sint (refcnt ent) \<le> 0 then Some ent
      else if magic ent \<noteq> CCE_MAGIC then Some ent
      else
        let ent1 = ent\<lparr>refcnt := refcnt ent - 1\<rparr>
        in if sint (refcnt ent1) = 1 \<and> in_cache ent1 \<noteq> None then
             (if map_ptr ent1 \<noteq> None then
                (if release_aggressively ent1 then Some (consensus_cache_entry_unmap ent1)
                 else Some (ent1\<lparr>unused_since := now\<rparr>))
              else Some ent1)
           else if 0 < sint (refcnt ent1) then Some ent1
           else None)"

definition consensus_cache_entry_mark_for_removal ::
  "consensus_cache_entry_t \<Rightarrow> consensus_cache_entry_t" where
  "consensus_cache_entry_mark_for_removal ent = ent\<lparr>can_remove := True\<rparr>"

definition consensus_cache_entry_mark_for_aggressive_release ::
  "consensus_cache_entry_t \<Rightarrow> consensus_cache_entry_t" where
  "consensus_cache_entry_mark_for_aggressive_release ent = ent\<lparr>release_aggressively := True\<rparr>"

definition consensus_cache_entry_is_mapped :: "consensus_cache_entry_t \<Rightarrow> bool" where
  "consensus_cache_entry_is_mapped ent = (map_ptr ent \<noteq> None)"

subsection \<open>The same operations through a pointer\<close>

text \<open>Apply an entry operation at address \<open>p\<close> of the store.\<close>
definition at_ptr ::
  "(consensus_cache_entry_t \<Rightarrow> consensus_cache_entry_t) \<Rightarrow> world \<Rightarrow> addr \<Rightarrow> fault + world" where
  "at_ptr f w p =
     (case ents w p of
        None \<Rightarrow> Inl Dangling
      | Some ent \<Rightarrow> Inr (w\<lparr>ents := (ents w)(p \<mapsto> f ent)\<rparr>))"

definition incref_ptr :: "world \<Rightarrow> addr \<Rightarrow> fault + world" where
  "incref_ptr w p = at_ptr consensus_cache_entry_incref w p"

definition mark_for_removal_ptr :: "world \<Rightarrow> addr \<Rightarrow> fault + world" where
  "mark_for_removal_ptr w p = at_ptr consensus_cache_entry_mark_for_removal w p"

definition mark_for_aggressive_release_ptr :: "world \<Rightarrow> addr \<Rightarrow> fault + world" where
  "mark_for_aggressive_release_ptr w p =
     at_ptr consensus_cache_entry_mark_for_aggressive_release w p"

text \<open>
  \<open>consensus_cache_entry_decref\<close> on the store of entries: the entry is updated in place,
  or its address released when the last reference goes.
\<close>
definition decref_heap ::
  "int \<Rightarrow> (addr \<rightharpoonup> consensus_cache_entry_t) \<Rightarrow> addr
   \<Rightarrow> fault + (addr \<rightharpoonup> consensus_cache_entry_t)" where
  "decref_heap now h p =
     (case h p of
        None \<Rightarrow> Inl Dangling
      | Some ent \<Rightarrow> Inr (h(p := consensus_cache_entry_decref now ent)))"

text \<open>The pointer may be \<open>NULL\<close>: then nothing happens.\<close>
definition decref_ptr :: "world \<Rightarrow> addr option \<Rightarrow> fault + world" where
  "decref_ptr w po =
     (case po of
        None \<Rightarrow> Inr w
      | Some p \<Rightarrow>
          (case decref_heap (approx_time w) (ents w) p of
             Inl e \<Rightarrow> Inl e
           | Inr h \<Rightarrow> Inr (w\<lparr>ents := h\<rparr>)))"

text \<open>
  \<open>consensus_cache_entry_get_body\<close>: the new state, the return code, and the two out
  parameters, which are written only on success.
\<close>
definition consensus_cache_entry_get_body ::
  "world \<Rightarrow> addr \<Rightarrow> fault + (world \<times> int \<times> (bytes option \<times> nat) option)" where
  "consensus_cache_entry_get_body w p =
     (case ents w p of
        None \<Rightarrow> Inl Dangling
      | Some ent \<Rightarrow>
          if magic ent \<noteq> CCE_MAGIC then Inr (w, - 1, None)
          else if map_ptr ent = None then
            (case in_cache ent of
               None \<Rightarrow> Inr (w, - 1, None)
             | Some c \<Rightarrow>
                 (case caches w c of
                    None \<Rightarrow> Inl Dangling
                  | Some cache \<Rightarrow>
                      let ent' = consensus_cache_entry_map (disk w (dir cache)) ent;
                          w' = w\<lparr>ents := (ents w)(p \<mapsto> ent')\<rparr>
                      in if map_ptr ent' = None then Inr (w', - 1, None)
                         else Inr (w', 0, Some (body ent', bodylen ent'))))
          else Inr (w, 0, Some (body ent, bodylen ent)))"

subsection \<open>Lookup\<close>

text \<open>
  The loop of \<open>consensus_cache_find_all\<close> over the collection, appending to \<open>out\<close>. It
  reads the entries and writes none. \<open>value\<close> is compared with \<open>strcmp\<close> whenever a key
  is given, so it is a string.
\<close>
fun find_all_loop ::
  "(addr \<rightharpoonup> consensus_cache_entry_t) \<Rightarrow> string option \<Rightarrow> string \<Rightarrow> addr list \<Rightarrow> addr list
   \<Rightarrow> fault + addr list" where
  "find_all_loop h key value [] out = Inr out"
| "find_all_loop h key value (p # ps) out =
     (case h p of
        None \<Rightarrow> Inl Dangling
      | Some ent \<Rightarrow>
          if can_remove ent then find_all_loop h key value ps out
          else (case key of
                  None \<Rightarrow> find_all_loop h key value ps (out @ [p])
                | Some k \<Rightarrow>
                    let found_val = consensus_cache_entry_get_value ent k
                    in if found_val \<noteq> None \<and> found_val = Some value
                       then find_all_loop h key value ps (out @ [p])
                       else find_all_loop h key value ps out))"

definition consensus_cache_find_all ::
  "addr list \<Rightarrow> world \<Rightarrow> addr \<Rightarrow> string option \<Rightarrow> string \<Rightarrow> fault + addr list" where
  "consensus_cache_find_all out w c key value =
     (case caches w c of
        None \<Rightarrow> Inl Dangling
      | Some cache \<Rightarrow>
          (case entries cache of
             None \<Rightarrow> Inl NullDeref
           | Some sl \<Rightarrow> find_all_loop (ents w) key value sl out))"

definition consensus_cache_find_first ::
  "world \<Rightarrow> addr \<Rightarrow> string option \<Rightarrow> string \<Rightarrow> fault + addr option" where
  "consensus_cache_find_first w c key value =
     (case consensus_cache_find_all [] w c key value of
        Inl e \<Rightarrow> Inl e
      | Inr tmp \<Rightarrow> Inr (if length tmp \<noteq> 0 then Some (tmp ! 0) else None))"

text \<open>
  The loop of \<open>consensus_cache_filter_list\<close>: \<open>idx\<close> is the loop's index, the loop's
  length is the length of the list (both shrink by one at a removal), and after a
  removal the same index is visited again.
\<close>
function filter_list_loop ::
  "(addr \<rightharpoonup> consensus_cache_entry_t) \<Rightarrow> string \<Rightarrow> string \<Rightarrow> nat \<Rightarrow> addr list
   \<Rightarrow> fault + addr list" where
  "filter_list_loop h key value idx lst =
     (if idx < length lst then
        (case h (lst ! idx) of
           None \<Rightarrow> Inl Dangling
         | Some ent \<Rightarrow>
             let found_val = consensus_cache_entry_get_value ent key
             in if found_val = None \<or> found_val \<noteq> Some value
                then filter_list_loop h key value idx (smartlist_del lst idx)
                else filter_list_loop h key value (Suc idx) lst)
      else Inr lst)"
  by pat_completeness auto
termination
  by (relation "measure (\<lambda>(h, key, value, idx, lst). length lst - idx)")
     (auto simp: smartlist_del_def)

declare filter_list_loop.simps [simp del]

definition consensus_cache_filter_list ::
  "world \<Rightarrow> addr list option \<Rightarrow> string option \<Rightarrow> string \<Rightarrow> fault + addr list option" where
  "consensus_cache_filter_list w lst key value =
     (case lst of
        None \<Rightarrow> Inr None
      | Some sl \<Rightarrow>
          (case key of
             None \<Rightarrow> Inr (Some sl)
           | Some k \<Rightarrow>
               (case filter_list_loop (ents w) k value 0 sl of
                  Inl e \<Rightarrow> Inl e
                | Inr sl' \<Rightarrow> Inr (Some sl'))))"

subsection \<open>Sweeps\<close>

fun unmap_lazy_loop ::
  "int \<Rightarrow> addr list \<Rightarrow> (addr \<rightharpoonup> consensus_cache_entry_t)
   \<Rightarrow> fault + (addr \<rightharpoonup> consensus_cache_entry_t)" where
  "unmap_lazy_loop cutoff [] h = Inr h"
| "unmap_lazy_loop cutoff (p # ps) h =
     (case h p of
        None \<Rightarrow> Inl Dangling
      | Some ent \<Rightarrow>
          if 1 < sint (refcnt ent) \<or> in_cache ent = None then unmap_lazy_loop cutoff ps h
          else if cutoff < unused_since ent then unmap_lazy_loop cutoff ps h
          else if map_ptr ent = None then unmap_lazy_loop cutoff ps h
          else unmap_lazy_loop cutoff ps (h(p \<mapsto> consensus_cache_entry_unmap ent)))"

definition consensus_cache_unmap_lazy :: "world \<Rightarrow> addr \<Rightarrow> int \<Rightarrow> fault + world" where
  "consensus_cache_unmap_lazy w c cutoff =
     (case caches w c of
        None \<Rightarrow> Inl Dangling
      | Some cache \<Rightarrow>
          (case entries cache of
             None \<Rightarrow> Inl NullDeref
           | Some sl \<Rightarrow>
               (case unmap_lazy_loop cutoff sl (ents w) of
                  Inl e \<Rightarrow> Inl e
                | Inr h \<Rightarrow> Inr (w\<lparr>ents := h\<rparr>))))"

text \<open>
  The loop of \<open>consensus_cache_delete_pending\<close> on the collection \<open>sl\<close>, the entries \<open>h\<close>
  and the files \<open>d\<close> of the cache's directory. The two nonfatal assertions only log.
\<close>
function delete_pending_loop ::
  "bool \<Rightarrow> int \<Rightarrow> nat \<Rightarrow> addr list \<Rightarrow> (addr \<rightharpoonup> consensus_cache_entry_t) \<Rightarrow> storage_contents
   \<Rightarrow> fault + (addr list \<times> (addr \<rightharpoonup> consensus_cache_entry_t) \<times> storage_contents)" where
  "delete_pending_loop force now idx sl h d =
     (if idx < length sl then
        (case h (sl ! idx) of
           None \<Rightarrow> Inl Dangling
         | Some ent \<Rightarrow>
             if \<not> force \<and> (1 < sint (refcnt ent) \<or> in_cache ent = None)
             then delete_pending_loop force now (Suc idx) sl h d
             else if \<not> can_remove ent then delete_pending_loop force now (Suc idx) sl h d
             else if sint (refcnt ent) \<le> 0 then delete_pending_loop force now (Suc idx) sl h d
             else
               (case decref_heap now (h(sl ! idx \<mapsto> ent\<lparr>in_cache := None\<rparr>)) (sl ! idx) of
                  Inl e \<Rightarrow> Inl e
                | Inr h' \<Rightarrow>
                    delete_pending_loop force now idx (smartlist_del sl idx) h'
                      (storage_dir_remove_file d (fname ent))))
      else Inr (sl, h, d))"
  by pat_completeness auto
termination
  by (relation "measure (\<lambda>(force, now, idx, sl, h, d). length sl - idx)")
     (auto simp: smartlist_del_def)

declare delete_pending_loop.simps [simp del]

definition consensus_cache_delete_pending :: "world \<Rightarrow> addr \<Rightarrow> bool \<Rightarrow> fault + world" where
  "consensus_cache_delete_pending w c force =
     (case caches w c of
        None \<Rightarrow> Inl Dangling
      | Some cache \<Rightarrow>
          (case entries cache of
             None \<Rightarrow> Inl NullDeref
           | Some sl \<Rightarrow>
               (case delete_pending_loop force (approx_time w) 0 sl (ents w)
                       (disk w (dir cache)) of
                  Inl e \<Rightarrow> Inl e
                | Inr (sl', h', d') \<Rightarrow>
                    Inr (w\<lparr>ents := h',
                           caches := (caches w)(c \<mapsto> cache\<lparr>entries := Some sl'\<rparr>),
                           disk := (disk w)(dir cache := d')\<rparr>))))"

subsection \<open>Clearing, closing, adding and rescanning\<close>

fun clear_loop ::
  "int \<Rightarrow> addr list \<Rightarrow> (addr \<rightharpoonup> consensus_cache_entry_t)
   \<Rightarrow> fault + (addr \<rightharpoonup> consensus_cache_entry_t)" where
  "clear_loop now [] h = Inr h"
| "clear_loop now (p # ps) h =
     (case h p of
        None \<Rightarrow> Inl Dangling
      | Some ent \<Rightarrow>
          (case decref_heap now (h(p \<mapsto> ent\<lparr>in_cache := None\<rparr>)) p of
             Inl e \<Rightarrow> Inl e
           | Inr h' \<Rightarrow> clear_loop now ps h'))"

definition consensus_cache_clear :: "world \<Rightarrow> addr \<Rightarrow> fault + world" where
  "consensus_cache_clear w c =
     (case consensus_cache_delete_pending w c False of
        Inl e \<Rightarrow> Inl e
      | Inr w1 \<Rightarrow>
          (case caches w1 c of
             None \<Rightarrow> Inl Dangling
           | Some cache \<Rightarrow>
               (case entries cache of
                  None \<Rightarrow> Inl NullDeref
                | Some sl \<Rightarrow>
                    (case clear_loop (approx_time w1) sl (ents w1) of
                       Inl e \<Rightarrow> Inl e
                     | Inr h \<Rightarrow>
                         Inr (w1\<lparr>ents := h,
                                 caches := (caches w1)(c \<mapsto> cache\<lparr>entries := None\<rparr>)\<rparr>)))))"

text \<open>
  \<open>consensus_cache_free\<close>: \<open>storage_dir_free\<close> and \<open>tor_free\<close> release the handle and the
  cache object; the files of the directory stay on disk.
\<close>
definition consensus_cache_free :: "world \<Rightarrow> addr option \<Rightarrow> fault + world" where
  "consensus_cache_free w co =
     (case co of
        None \<Rightarrow> Inr w
      | Some c \<Rightarrow>
          (case caches w c of
             None \<Rightarrow> Inl Dangling
           | Some cache \<Rightarrow>
               (case (if entries cache \<noteq> None then consensus_cache_clear w c else Inr w) of
                  Inl e \<Rightarrow> Inl e
                | Inr w1 \<Rightarrow> Inr (w1\<lparr>caches := (caches w1)(c := None)\<rparr>))))"

text \<open>
  \<open>consensus_cache_add\<close>. \<open>pick\<close> is the backend's answer to the write (see
  \<open>storage_dir_save_labeled_to_file\<close>); \<open>tor_malloc_zero\<close> hands out the address
  \<open>next_ptr\<close> with every field zero.
\<close>
definition consensus_cache_add ::
  "world \<Rightarrow> addr \<Rightarrow> config_line_t \<Rightarrow> bytes \<Rightarrow> string option \<Rightarrow> fault + (world \<times> addr option)" where
  "consensus_cache_add w c ls data pick =
     (case caches w c of
        None \<Rightarrow> Inl Dangling
      | Some cache \<Rightarrow>
          (case storage_dir_save_labeled_to_file (disk w (dir cache)) ls data pick of
             (d', r, fn) \<Rightarrow>
               (case fn of
                  None \<Rightarrow> Inr (w\<lparr>disk := (disk w)(dir cache := d')\<rparr>, None)
                | Some f \<Rightarrow>
                    if r < 0 then Inr (w\<lparr>disk := (disk w)(dir cache := d')\<rparr>, None)
                    else
                      (case entries cache of
                         None \<Rightarrow> Inl NullDeref
                       | Some sl \<Rightarrow>
                           let p = next_ptr w;
                               ent = \<lparr>magic = CCE_MAGIC, refcnt = 2, can_remove = False,
                                      release_aggressively = False, fname = f,
                                      labels = config_lines_dup ls, in_cache = Some c,
                                      unused_since = TIME_MAX, map_ptr = None, bodylen = 0,
                                      body = None\<rparr>
                           in Inr (w\<lparr>ents := (ents w)(p \<mapsto> ent),
                                     caches := (caches w)(c \<mapsto> cache\<lparr>entries := Some (sl @ [p])\<rparr>),
                                     disk := (disk w)(dir cache := d'),
                                     next_ptr := Suc p\<rparr>, Some p)))))"

text \<open>
  The loop of \<open>consensus_cache_rescan\<close> over the file names: the collection built so
  far, the entries and the allocator's next address.
\<close>
fun rescan_loop ::
  "addr \<Rightarrow> storage_contents \<Rightarrow> string list
   \<Rightarrow> addr list \<times> (addr \<rightharpoonup> consensus_cache_entry_t) \<times> addr
   \<Rightarrow> addr list \<times> (addr \<rightharpoonup> consensus_cache_entry_t) \<times> addr" where
  "rescan_loop c d [] (sl, h, nxt) = (sl, h, nxt)"
| "rescan_loop c d (f # fs) (sl, h, nxt) =
     (case storage_dir_map_labeled d f of
        None \<Rightarrow> rescan_loop c d fs (sl, h, nxt)
      | Some (m, ls, b, n) \<Rightarrow>
          rescan_loop c d fs
            (sl @ [nxt],
             h(nxt \<mapsto> \<lparr>magic = CCE_MAGIC, refcnt = 1, can_remove = False,
                       release_aggressively = False, fname = f, labels = ls,
                       in_cache = Some c, unused_since = TIME_MAX, map_ptr = None,
                       bodylen = 0, body = None\<rparr>),
             Suc nxt))"

definition consensus_cache_rescan :: "world \<Rightarrow> addr \<Rightarrow> fault + world" where
  "consensus_cache_rescan w c =
     (case caches w c of
        None \<Rightarrow> Inl Dangling
      | Some cache \<Rightarrow>
          (case (if entries cache \<noteq> None then consensus_cache_clear w c else Inr w) of
             Inl e \<Rightarrow> Inl e
           | Inr w1 \<Rightarrow>
               (case caches w1 c of
                  None \<Rightarrow> Inl Dangling
                | Some cache1 \<Rightarrow>
                    (case rescan_loop c (disk w1 (dir cache1))
                            (storage_dir_list (disk w1 (dir cache1)))
                            ([], ents w1, next_ptr w1) of
                       (sl, h, nxt) \<Rightarrow>
                         Inr (w1\<lparr>ents := h,
                                 caches := (caches w1)(c \<mapsto> cache1\<lparr>entries := Some sl\<rparr>),
                                 next_ptr := nxt\<rparr>)))))"

subsection \<open>Example states\<close>

text \<open>
  An entry held by the cache alone, mapped, idle since time 1000 and marked for
  aggressive release: the state after \<open>add\<close>, \<open>get_body\<close>, the caller's \<open>decref\<close> and
  \<open>mark_for_aggressive_release\<close>.
\<close>
definition ex_mapped_idle :: consensus_cache_entry_t where
  "ex_mapped_idle =
     \<lparr>magic = CCE_MAGIC, refcnt = 1, can_remove = False, release_aggressively = True,
      fname = ''f0'', labels = [(''format'', ''microdesc'')], in_cache = Some 0,
      unused_since = 1000, map_ptr = Some [1, 2, 3], bodylen = 3, body = Some [1, 2, 3]\<rparr>"

text \<open>
  Three more entries of cache 0: one marked for removal and held by a caller besides
  the cache, one marked for removal and held by the cache alone, and one unmarked and
  held by the cache alone as a rescan leaves it.
\<close>
definition ex_pending_held :: consensus_cache_entry_t where
  "ex_pending_held =
     \<lparr>magic = CCE_MAGIC, refcnt = 2, can_remove = True, release_aggressively = False,
      fname = ''f1'', labels = [(''format'', ''microdesc'')], in_cache = Some 0,
      unused_since = TIME_MAX, map_ptr = None, bodylen = 0, body = None\<rparr>"

definition ex_pending_free :: consensus_cache_entry_t where
  "ex_pending_free =
     \<lparr>magic = CCE_MAGIC, refcnt = 1, can_remove = True, release_aggressively = False,
      fname = ''f2'', labels = [(''format'', ''ns'')], in_cache = Some 0,
      unused_since = TIME_MAX, map_ptr = None, bodylen = 0, body = None\<rparr>"

definition ex_plain :: consensus_cache_entry_t where
  "ex_plain =
     \<lparr>magic = CCE_MAGIC, refcnt = 1, can_remove = False, release_aggressively = False,
      fname = ''f3'', labels = [(''format'', ''microdesc'')], in_cache = Some 0,
      unused_since = TIME_MAX, map_ptr = None, bodylen = 0, body = None\<rparr>"

text \<open>
  A state with one cache, at address 0, over the directory \<open>cache\<close>, holding the four
  entries at the addresses 0 to 3, each with its file.
\<close>
definition ex_world :: world where
  "ex_world =
     \<lparr>ents = [0 \<mapsto> ex_mapped_idle, 1 \<mapsto> ex_pending_held, 2 \<mapsto> ex_pending_free,
              3 \<mapsto> ex_plain],
      caches = [0 \<mapsto> \<lparr>dir = ''cache'', entries = Some [2, 0, 1, 3]\<rparr>],
      disk = (\<lambda>n. if n = ''cache''
                    then [(''f0'', Some ([(''format'', ''microdesc'')], [1, 2, 3])),
                          (''f1'', Some ([(''format'', ''microdesc'')], [4])),
                          (''f2'', Some ([(''format'', ''ns'')], [5, 6])),
                          (''f3'', Some ([(''format'', ''microdesc'')], [7, 8, 9, 10]))]
                    else []),
      approx_time = 2000,
      next_ptr = 4\<rparr>"

text \<open>
  Entry 3 after a caller that holds no reference of its own has read its body: mapped,
  held by the cache alone, \<open>unused_since\<close> infinite.
\<close>
definition ex_read :: consensus_cache_entry_t where
  "ex_read = ex_plain\<lparr>map_ptr := Some [7, 8, 9, 10], body := Some [7, 8, 9, 10], bodylen := 4\<rparr>"

definition ex_world_read :: world where
  "ex_world_read = ex_world\<lparr>ents := (ents ex_world)(3 \<mapsto> ex_read)\<rparr>"

text \<open>
  The same cache with entries that carry several labels, in different orders: entry 0
  is a microdesc consensus, entry 1 a microdesc vote marked for removal, entry 2 an ns
  consensus, and entry 3 has a format but no type.
\<close>
definition ex_labelled :: world where
  "ex_labelled =
     ex_world\<lparr>ents :=
       [0 \<mapsto> ex_plain\<lparr>fname := ''f0'',
               labels := [(''type'', ''consensus''), (''format'', ''microdesc'')]\<rparr>,
        1 \<mapsto> ex_plain\<lparr>fname := ''f1'', can_remove := True,
               labels := [(''format'', ''microdesc''), (''type'', ''vote'')]\<rparr>,
        2 \<mapsto> ex_plain\<lparr>fname := ''f2'',
               labels := [(''type'', ''consensus''), (''format'', ''ns'')]\<rparr>,
        3 \<mapsto> ex_plain\<lparr>labels := [(''format'', ''microdesc'')]\<rparr>]\<rparr>"

subsection \<open>Observations\<close>

text \<open>The test of the lazy sweep on one entry: the three \<open>continue\<close>s not taken.\<close>
definition lazy_unmap_due :: "int \<Rightarrow> consensus_cache_entry_t \<Rightarrow> bool" where
  "lazy_unmap_due cutoff ent \<longleftrightarrow>
     \<not> (1 < sint (refcnt ent) \<or> in_cache ent = None) \<and> \<not> cutoff < unused_since ent
     \<and> map_ptr ent \<noteq> None"

text \<open>The entry at an address after an operation that returns a state.\<close>
definition entry_after :: "fault + world \<Rightarrow> addr \<Rightarrow> consensus_cache_entry_t option" where
  "entry_after r p = (case r of Inl e \<Rightarrow> None | Inr w \<Rightarrow> ents w p)"

text \<open>
  The test of the deletion sweep on one entry: none of its three \<open>continue\<close>s taken.
  \<open>swept\<close> is what the sweep then leaves of the entry: detached and one reference less,
  or untouched.
\<close>
definition delete_due :: "bool \<Rightarrow> consensus_cache_entry_t \<Rightarrow> bool" where
  "delete_due force ent \<longleftrightarrow>
     \<not> (\<not> force \<and> (1 < sint (refcnt ent) \<or> in_cache ent = None)) \<and> can_remove ent
     \<and> \<not> sint (refcnt ent) \<le> 0"

definition swept :: "bool \<Rightarrow> int \<Rightarrow> consensus_cache_entry_t \<Rightarrow> consensus_cache_entry_t option" where
  "swept force now ent =
     (if delete_due force ent then consensus_cache_entry_decref now (ent\<lparr>in_cache := None\<rparr>)
      else Some ent)"

text \<open>The collection of a cache and the file names of a directory after an operation.\<close>
definition collection_after :: "fault + world \<Rightarrow> addr \<Rightarrow> addr list option" where
  "collection_after r c =
     (case r of
        Inl e \<Rightarrow> None
      | Inr w \<Rightarrow> (case caches w c of None \<Rightarrow> None | Some cache \<Rightarrow> entries cache))"

definition files_after :: "fault + world \<Rightarrow> string \<Rightarrow> string list" where
  "files_after r n = (case r of Inl e \<Rightarrow> [] | Inr w \<Rightarrow> storage_dir_list (disk w n))"

text \<open>What clearing leaves of an entry: detached, then one reference less.\<close>
definition released :: "int \<Rightarrow> consensus_cache_entry_t \<Rightarrow> consensus_cache_entry_t option" where
  "released now ent = consensus_cache_entry_decref now (ent\<lparr>in_cache := None\<rparr>)"

text \<open>
  The entry at an address is live and, among its labels, the first one with the key
  \<open>key\<close> has the value \<open>value\<close>. This is stated on the label list itself, not through
  the code's lookup.
\<close>
definition label_is ::
  "(addr \<rightharpoonup> consensus_cache_entry_t) \<Rightarrow> string \<Rightarrow> string \<Rightarrow> addr \<Rightarrow> bool" where
  "label_is h key value p \<longleftrightarrow>
     (case h p of
        None \<Rightarrow> False
      | Some ent \<Rightarrow> map_of (labels ent) key = Some value)"

text \<open>
  \<open>add\<close> followed by \<open>find_all\<close> for one key and value in the state \<open>add\<close> leaves: the
  pointer \<open>add\<close> returned and the entries found.
\<close>
definition add_then_find_all ::
  "world \<Rightarrow> addr \<Rightarrow> config_line_t \<Rightarrow> bytes \<Rightarrow> string option \<Rightarrow> string \<Rightarrow> string
   \<Rightarrow> (addr option \<times> addr list) option" where
  "add_then_find_all w c ls data pick k v =
     (case consensus_cache_add w c ls data pick of
        Inl e \<Rightarrow> None
      | Inr (w', po) \<Rightarrow>
          (case consensus_cache_find_all [] w' c (Some k) v of
             Inl e \<Rightarrow> None
           | Inr r \<Rightarrow> Some (po, r)))"

text \<open>
  The invariant of the spec on \<open>unused_since\<close>: it is finite only for an entry with
  reference count 1, an owning cache and a mapping. \<open>entry_ok\<close> adds what the struct asks
  of every entry, a valid tag, and \<open>heap_ok\<close> asks it of every allocated entry.
\<close>
definition unused_since_inv :: "consensus_cache_entry_t \<Rightarrow> bool" where
  "unused_since_inv ent \<longleftrightarrow>
     (unused_since ent \<noteq> TIME_MAX \<longrightarrow>
        sint (refcnt ent) = 1 \<and> in_cache ent \<noteq> None \<and> map_ptr ent \<noteq> None)"

definition entry_ok :: "consensus_cache_entry_t \<Rightarrow> bool" where
  "entry_ok ent \<longleftrightarrow> magic ent = CCE_MAGIC \<and> unused_since_inv ent"

definition heap_ok :: "(addr \<rightharpoonup> consensus_cache_entry_t) \<Rightarrow> bool" where
  "heap_ok h \<longleftrightarrow> (\<forall>p ent. h p = Some ent \<longrightarrow> entry_ok ent)"

section \<open>Properties\<close>

lemmas ex_defs =
  ex_world_def ex_mapped_idle_def ex_pending_held_def ex_pending_free_def ex_plain_def

subsection \<open>The example states arise from the operations\<close>

text \<open>
  \<open>ex_world_read\<close> is \<open>ex_world\<close> after \<open>get_body\<close> on entry 3, and \<open>ex_mapped_idle\<close> is
  an entry as \<open>add\<close> creates it after its body was mapped, the caller's reference
  released at time 1000 and the entry marked for aggressive release.
\<close>

lemma ex_world_read_reached:
  "map_sum id fst (consensus_cache_entry_get_body ex_world 3) = Inr ex_world_read"
  by (simp add: consensus_cache_entry_get_body_def consensus_cache_entry_map_def
      storage_dir_map_labeled_def Let_def ex_defs ex_world_read_def ex_read_def eval_nat_numeral)

lemma ex_mapped_idle_reached:
  "map_option consensus_cache_entry_mark_for_aggressive_release
     (consensus_cache_entry_decref 1000
        (consensus_cache_entry_map (disk ex_world ''cache'')
           \<lparr>magic = CCE_MAGIC, refcnt = 2, can_remove = False, release_aggressively = False,
            fname = ''f0'', labels = [(''format'', ''microdesc'')], in_cache = Some 0,
            unused_since = TIME_MAX, map_ptr = None, bodylen = 0, body = None\<rparr>))
   = Some ex_mapped_idle"
  by (simp add: consensus_cache_entry_decref_def consensus_cache_entry_map_def
      consensus_cache_entry_mark_for_aggressive_release_def
      storage_dir_map_labeled_def Let_def ex_defs eval_nat_numeral)

subsection \<open>The 32-bit reference count\<close>

lemma sint32_range:
  fixes x :: "32 word"
  shows "- 2147483648 \<le> sint x \<and> sint x \<le> 2147483647"
  using sint_greater_eq [of x] sint_less [of x] by simp

lemma sint_succ32:
  fixes x :: "32 word"
  assumes "sint x < 2147483647"
  shows "sint (x + 1) = sint x + 1"
  using assms sint32_range [of x]
  by (simp add: sint_word_ariths signed_take_bit_int_eq_self_iff)

lemma sint_pred32:
  fixes x :: "32 word"
  assumes "0 < sint x"
  shows "sint (x - 1) = sint x - 1"
  using assms sint32_range [of x]
  by (simp add: sint_word_ariths signed_take_bit_int_eq_self_iff)

subsection \<open>Reference counting\<close>

text \<open>
  Claim C4, as the code has it. For an entry with a valid tag and a reference count of at
  least 1 and below the largest \<open>int32_t\<close>, \<open>incref\<close> followed by \<open>decref\<close> returns the
  entry (it is not freed) with its reference count as before. The mapping is as before,
  except that a mapped entry whose count was 1, whose owning cache is present and which
  is marked for aggressive release ends unmapped: \<open>decref\<close> finds the cache the only
  holder and unmaps. \<open>unused_since\<close> ends at the infinite sentinel, except for a mapped
  entry whose count was 1, with an owning cache and not marked for aggressive release,
  where \<open>decref\<close> starts the idle clock at the current time. No other field changes.
\<close>
theorem incref_decref_round_trip:
  assumes "magic ent = CCE_MAGIC" and "1 \<le> sint (refcnt ent)"
    and "sint (refcnt ent) < 2147483647"
  shows "\<exists>e'. consensus_cache_entry_decref now (consensus_cache_entry_incref ent) = Some e'
     \<and> refcnt e' = refcnt ent
     \<and> (consensus_cache_entry_is_mapped e' \<longleftrightarrow>
          consensus_cache_entry_is_mapped ent
          \<and> \<not> (sint (refcnt ent) = 1 \<and> in_cache ent \<noteq> None \<and> release_aggressively ent))
     \<and> (consensus_cache_entry_is_mapped e' \<longrightarrow>
          map_ptr e' = map_ptr ent \<and> body e' = body ent \<and> bodylen e' = bodylen ent)
     \<and> unused_since e' =
          (if sint (refcnt ent) = 1 \<and> in_cache ent \<noteq> None
              \<and> consensus_cache_entry_is_mapped ent \<and> \<not> release_aggressively ent
           then now else TIME_MAX)
     \<and> magic e' = magic ent \<and> can_remove e' = can_remove ent
     \<and> release_aggressively e' = release_aggressively ent
     \<and> fname e' = fname ent \<and> labels e' = labels ent \<and> in_cache e' = in_cache ent"
proof -
  have up: "sint (refcnt ent + 1) = sint (refcnt ent) + 1"
    using assms(3) by (rule sint_succ32)
  show ?thesis
    using assms up
    by (auto simp: consensus_cache_entry_decref_def consensus_cache_entry_incref_def
        consensus_cache_entry_unmap_def consensus_cache_entry_is_mapped_def Let_def)
qed

theorem incref_decref_round_trip_witness:
  "\<exists>e'. consensus_cache_entry_decref 2000 (consensus_cache_entry_incref ex_mapped_idle) = Some e'
     \<and> refcnt e' = 1 \<and> \<not> consensus_cache_entry_is_mapped e' \<and> unused_since e' = TIME_MAX"
  using incref_decref_round_trip [of ex_mapped_idle 2000]
  by (auto simp: ex_mapped_idle_def consensus_cache_entry_is_mapped_def)

text \<open>
  Claim C4 as stated fails: the entry \<open>ex_mapped_idle\<close> is live and mapped, and after
  \<open>incref\<close> and \<open>decref\<close> its mapping is gone.
\<close>
theorem incref_decref_unmaps_counterexample:
  "magic ex_mapped_idle = CCE_MAGIC \<and> 1 \<le> sint (refcnt ex_mapped_idle)
   \<and> map_ptr ex_mapped_idle = Some [1, 2, 3]
   \<and> map_option map_ptr
        (consensus_cache_entry_decref 2000 (consensus_cache_entry_incref ex_mapped_idle))
      = Some None"
  by (simp add: ex_mapped_idle_def consensus_cache_entry_decref_def
      consensus_cache_entry_incref_def consensus_cache_entry_unmap_def Let_def)

subsection \<open>Lookup\<close>

text \<open>
  The code's label lookup is the first pair with the key in the label list, which is
  what \<open>map_of\<close> returns.
\<close>
lemma get_value_map_of:
  "consensus_cache_entry_get_value ent k = map_of (labels ent) k"
proof -
  have "(case find (\<lambda>cl. fst cl = k) ls of Some match \<Rightarrow> Some (snd match) | None \<Rightarrow> None)
      = map_of ls k" for ls :: config_line_t
    by (induction ls) auto
  then show ?thesis
    by (simp add: consensus_cache_entry_get_value_def config_line_find_def)
qed

lemma find_all_loop_eq:
  "\<forall>p\<in>set sl. h p \<noteq> None \<Longrightarrow>
   find_all_loop h key value sl out =
     Inr (out @ filter (\<lambda>p. case h p of
                              None \<Rightarrow> False
                            | Some ent \<Rightarrow>
                                \<not> can_remove ent \<and>
                                (case key of
                                   None \<Rightarrow> True
                                 | Some k \<Rightarrow> consensus_cache_entry_get_value ent k = Some value)) sl)"
  by (induction sl arbitrary: out) (auto split: option.splits)

lemma find_all_loop_labels:
  "\<forall>p\<in>set sl. h p \<noteq> None \<Longrightarrow>
   find_all_loop h key value sl out =
     Inr (out @ filter (\<lambda>p. case h p of
                              None \<Rightarrow> False
                            | Some ent \<Rightarrow>
                                \<not> can_remove ent \<and>
                                (case key of
                                   None \<Rightarrow> True
                                 | Some k \<Rightarrow> map_of (labels ent) k = Some value)) sl)"
  by (induction sl arbitrary: out) (auto split: option.splits simp: get_value_map_of)

text \<open>
  Claim C7. In a cache whose collection holds live entries, \<open>find_all\<close> appends to \<open>out\<close>
  exactly the entries of the collection, in its order, that are not marked for removal
  and, when a key is given, whose label list gives the key the given value (the first
  pair with that key, should the key repeat); with no key it appends every entry not
  marked for removal. The function only reads: it returns the list and leaves every
  entry, reference counts included, as it was.
\<close>
theorem find_all_exact:
  assumes "caches w c = Some cache" and "entries cache = Some sl"
    and "\<forall>p\<in>set sl. ents w p \<noteq> None"
  shows "consensus_cache_find_all out w c key value =
     Inr (out @ filter (\<lambda>p. case ents w p of
                              None \<Rightarrow> False
                            | Some ent \<Rightarrow>
                                \<not> can_remove ent \<and>
                                (case key of
                                   None \<Rightarrow> True
                                 | Some k \<Rightarrow> map_of (labels ent) k = Some value)) sl)"
  using assms by (simp add: consensus_cache_find_all_def find_all_loop_labels)

theorem find_all_exact_witness:
  "consensus_cache_find_all [] ex_labelled 0 (Some ''format'') ''microdesc'' = Inr [0, 3]
   \<and> consensus_cache_find_all [] ex_labelled 0 (Some ''type'') ''consensus'' = Inr [2, 0]
   \<and> consensus_cache_find_all [] ex_labelled 0 (Some ''format'') ''consensus'' = Inr []
   \<and> consensus_cache_find_all [] ex_labelled 0 (Some ''flavor'') ''microdesc'' = Inr []
   \<and> consensus_cache_find_all [7] ex_labelled 0 None [] = Inr [7, 2, 0, 3]"
proof -
  let ?cache = "\<lparr>dir = ''cache'', entries = Some [2, 0, 1, 3]\<rparr>"
  have a1: "caches ex_labelled 0 = Some ?cache" by (simp add: ex_labelled_def ex_defs)
  have a2: "entries ?cache = Some [2, 0, 1, 3]" by simp
  have a3: "\<forall>p\<in>set [2, 0, 1, 3]. ents ex_labelled p \<noteq> None"
    by (simp add: ex_labelled_def)
  note fa = find_all_exact [OF a1 a2 a3]
  show ?thesis
    using fa [of "[]" "Some ''format''" "''microdesc''"]
      fa [of "[]" "Some ''type''" "''consensus''"]
      fa [of "[]" "Some ''format''" "''consensus''"]
      fa [of "[]" "Some ''flavor''" "''microdesc''"]
      fa [of "[7]" None "[]"]
    by (simp add: ex_labelled_def ex_plain_def)
qed

subsection \<open>Body access\<close>

lemma map_ptr_None_upd:
  "map_ptr ent = None \<Longrightarrow>
   ent\<lparr>map_ptr := None, unused_since := t\<rparr> = ent\<lparr>unused_since := t\<rparr>"
  by (cases ent) simp

text \<open>
  Claim C8. For a live entry with a valid tag, \<open>get_body\<close>: returns 0 with the cached
  body and length and changes nothing when the entry is mapped; returns \<open>-1\<close> and changes
  nothing when the entry is unmapped and has no owning cache; and, when the entry is
  unmapped and its owning cache is live, asks the backend for the entry's file in the
  cache's directory and resets \<open>unused_since\<close> to the infinite sentinel, returning 0 with
  the body and length when the backend maps the file and \<open>-1\<close> when it does not.
\<close>
theorem get_body_cases:
  assumes "ents w p = Some ent" and "magic ent = CCE_MAGIC"
  shows "(map_ptr ent \<noteq> None \<longrightarrow>
            consensus_cache_entry_get_body w p = Inr (w, 0, Some (body ent, bodylen ent)))
     \<and> (map_ptr ent = None \<and> in_cache ent = None \<longrightarrow>
            consensus_cache_entry_get_body w p = Inr (w, - 1, None))
     \<and> (\<forall>c cache. map_ptr ent = None \<and> in_cache ent = Some c \<and> caches w c = Some cache \<longrightarrow>
            (case storage_dir_map_labeled (disk w (dir cache)) (fname ent) of
               Some (m, ls, b, n) \<Rightarrow>
                 consensus_cache_entry_get_body w p =
                   Inr (w\<lparr>ents := (ents w)(p \<mapsto> ent\<lparr>map_ptr := Some m, body := Some b,
                            bodylen := n, unused_since := TIME_MAX\<rparr>)\<rparr>, 0, Some (Some b, n))
             | None \<Rightarrow>
                 consensus_cache_entry_get_body w p =
                   Inr (w\<lparr>ents := (ents w)(p \<mapsto> ent\<lparr>unused_since := TIME_MAX\<rparr>)\<rparr>, - 1, None)))"
  using assms
  by (auto simp: consensus_cache_entry_get_body_def consensus_cache_entry_map_def Let_def
      map_ptr_None_upd split: option.splits)

theorem get_body_cases_witness:
  "map_sum id snd (consensus_cache_entry_get_body ex_world 0) =
      Inr (0, Some (Some [1, 2, 3], 3))
   \<and> map_sum id snd (consensus_cache_entry_get_body
        (ex_world\<lparr>ents := (ents ex_world)(3 \<mapsto> ex_plain\<lparr>in_cache := None\<rparr>)\<rparr>) 3) =
      Inr (- 1, None)
   \<and> map_sum id snd (consensus_cache_entry_get_body ex_world 3) =
      Inr (0, Some (Some [7, 8, 9, 10], 4))"
  using get_body_cases [of ex_world 0 ex_mapped_idle]
    get_body_cases [of "ex_world\<lparr>ents := (ents ex_world)(3 \<mapsto> ex_plain\<lparr>in_cache := None\<rparr>)\<rparr>" 3
      "ex_plain\<lparr>in_cache := None\<rparr>"]
    get_body_cases [of ex_world 3 ex_plain]
  by (simp add: ex_defs storage_dir_map_labeled_def)

subsection \<open>Marking\<close>

text \<open>
  Claim C10. On a live entry, \<open>mark_for_removal\<close> sets \<open>can_remove\<close> and
  \<open>mark_for_aggressive_release\<close> sets \<open>release_aggressively\<close>; each leaves every other
  field of the entry, every other entry, the caches with their collections, the
  directories, the clock and the allocator as they were, and doing it a second time
  changes nothing.
\<close>
theorem mark_frame:
  assumes "ents w p = Some ent"
  shows "(\<exists>w1 e1. mark_for_removal_ptr w p = Inr w1 \<and> ents w1 p = Some e1
            \<and> can_remove e1
            \<and> release_aggressively e1 = release_aggressively ent
            \<and> magic e1 = magic ent \<and> refcnt e1 = refcnt ent \<and> map_ptr e1 = map_ptr ent
            \<and> body e1 = body ent \<and> bodylen e1 = bodylen ent
            \<and> unused_since e1 = unused_since ent \<and> labels e1 = labels ent
            \<and> fname e1 = fname ent \<and> in_cache e1 = in_cache ent
            \<and> (\<forall>q. q \<noteq> p \<longrightarrow> ents w1 q = ents w q)
            \<and> caches w1 = caches w \<and> disk w1 = disk w
            \<and> approx_time w1 = approx_time w \<and> next_ptr w1 = next_ptr w
            \<and> mark_for_removal_ptr w1 p = Inr w1)
     \<and> (\<exists>w2 e2. mark_for_aggressive_release_ptr w p = Inr w2 \<and> ents w2 p = Some e2
            \<and> release_aggressively e2
            \<and> can_remove e2 = can_remove ent
            \<and> magic e2 = magic ent \<and> refcnt e2 = refcnt ent \<and> map_ptr e2 = map_ptr ent
            \<and> body e2 = body ent \<and> bodylen e2 = bodylen ent
            \<and> unused_since e2 = unused_since ent \<and> labels e2 = labels ent
            \<and> fname e2 = fname ent \<and> in_cache e2 = in_cache ent
            \<and> (\<forall>q. q \<noteq> p \<longrightarrow> ents w2 q = ents w q)
            \<and> caches w2 = caches w \<and> disk w2 = disk w
            \<and> approx_time w2 = approx_time w \<and> next_ptr w2 = next_ptr w
            \<and> mark_for_aggressive_release_ptr w2 p = Inr w2)"
  using assms
  by (simp add: mark_for_removal_ptr_def mark_for_aggressive_release_ptr_def at_ptr_def
      consensus_cache_entry_mark_for_removal_def
      consensus_cache_entry_mark_for_aggressive_release_def)

theorem mark_frame_witness:
  "(\<exists>w1 e1. mark_for_removal_ptr ex_world 3 = Inr w1 \<and> ents w1 3 = Some e1
      \<and> can_remove e1 \<and> refcnt e1 = 1 \<and> caches w1 = caches ex_world)
   \<and> (\<exists>w2 e2. mark_for_aggressive_release_ptr ex_world 3 = Inr w2 \<and> ents w2 3 = Some e2
      \<and> release_aggressively e2 \<and> \<not> can_remove e2 \<and> caches w2 = caches ex_world)"
  using mark_frame [of ex_world 3 ex_plain]
  by (auto simp: ex_defs)

subsection \<open>The lazy unmap sweep\<close>

lemma not_due_unmap [simp]: "\<not> lazy_unmap_due cutoff (consensus_cache_entry_unmap ent)"
  by (simp add: lazy_unmap_due_def consensus_cache_entry_unmap_def Let_def)

lemma unmap_lazy_loop_spec:
  "\<forall>p\<in>set sl. h p \<noteq> None \<Longrightarrow>
   unmap_lazy_loop cutoff sl h =
     Inr (\<lambda>q. if q \<in> set sl
              then map_option (\<lambda>ent. if lazy_unmap_due cutoff ent
                                      then consensus_cache_entry_unmap ent else ent) (h q)
              else h q)"
proof (induction sl arbitrary: h)
  case Nil
  then show ?case by simp
next
  case (Cons p ps)
  from Cons.prems obtain ent where ent: "h p = Some ent" by auto
  show ?case
  proof (cases "lazy_unmap_due cutoff ent")
    case True
    let ?h1 = "h(p \<mapsto> consensus_cache_entry_unmap ent)"
    have live: "\<forall>q\<in>set ps. ?h1 q \<noteq> None" using Cons.prems by auto
    have "unmap_lazy_loop cutoff (p # ps) h = unmap_lazy_loop cutoff ps ?h1"
      using ent True by (auto simp: lazy_unmap_due_def)
    also note Cons.IH [OF live]
    finally show ?thesis
      using ent True by (auto intro!: ext)
  next
    case False
    have live: "\<forall>q\<in>set ps. h q \<noteq> None" using Cons.prems by auto
    have "unmap_lazy_loop cutoff (p # ps) h = unmap_lazy_loop cutoff ps h"
      using ent False by (auto simp: lazy_unmap_due_def)
    also note Cons.IH [OF live]
    finally show ?thesis
      using ent False by (auto intro!: ext)
  qed
qed

text \<open>
  Claim C3, as the code has it. In a cache whose collection holds live entries with a
  reference count of at least 1, \<open>unmap_lazy\<close> returns, leaves the collections and the
  directories as they were, frees no entry, and unmaps exactly the entries of the
  collection that are mapped, have reference count 1, have an owning cache and have
  \<open>unused_since \<le> cutoff\<close>; every other entry is untouched, so no entry with a
  reference count above 1 and no entry with \<open>unused_since > cutoff\<close> is unmapped. The
  code has no test for the infinite sentinel other than this comparison: entries with an
  infinite \<open>unused_since\<close> are untouched whenever the cutoff is below \<open>TIME_MAX\<close>.
\<close>
theorem unmap_lazy_exact:
  assumes "caches w c = Some cache" and "entries cache = Some sl"
    and "\<forall>p\<in>set sl. \<exists>ent. ents w p = Some ent \<and> 1 \<le> sint (refcnt ent)"
  shows "\<exists>w'. consensus_cache_unmap_lazy w c cutoff = Inr w'
     \<and> caches w' = caches w \<and> disk w' = disk w
     \<and> (\<forall>q. ents w q = None \<longrightarrow> ents w' q = None)
     \<and> (\<forall>q ent. ents w q = Some ent \<longrightarrow>
          ents w' q =
            (if q \<in> set sl \<and> map_ptr ent \<noteq> None \<and> sint (refcnt ent) = 1
                \<and> in_cache ent \<noteq> None \<and> unused_since ent \<le> cutoff
             then Some (consensus_cache_entry_unmap ent) else Some ent))
     \<and> (cutoff < TIME_MAX \<longrightarrow>
          (\<forall>q ent. ents w q = Some ent \<and> unused_since ent = TIME_MAX \<longrightarrow>
             ents w' q = Some ent))"
proof -
  have live: "\<forall>p\<in>set sl. ents w p \<noteq> None" using assms(3) by auto
  have run: "consensus_cache_unmap_lazy w c cutoff =
      Inr (w\<lparr>ents := (\<lambda>q. if q \<in> set sl
              then map_option (\<lambda>ent. if lazy_unmap_due cutoff ent
                                      then consensus_cache_entry_unmap ent else ent) (ents w q)
              else ents w q)\<rparr>)"
    using assms(1,2) by (simp add: consensus_cache_unmap_lazy_def unmap_lazy_loop_spec [OF live])
  have due: "lazy_unmap_due cutoff ent \<longleftrightarrow>
      map_ptr ent \<noteq> None \<and> sint (refcnt ent) = 1 \<and> in_cache ent \<noteq> None
      \<and> unused_since ent \<le> cutoff"
    if "q \<in> set sl" and "ents w q = Some ent" for q ent
    using assms(3) that by (auto simp: lazy_unmap_due_def)
  show ?thesis
    unfolding run using due by (auto simp: lazy_unmap_due_def)
qed

theorem unmap_lazy_exact_witness:
  "map_option map_ptr (entry_after (consensus_cache_unmap_lazy ex_world 0 1500) 0) = Some None
   \<and> entry_after (consensus_cache_unmap_lazy ex_world 0 500) 0 = Some ex_mapped_idle
   \<and> entry_after (consensus_cache_unmap_lazy ex_world_read 0 1500) 3 = Some ex_read"
  using unmap_lazy_exact [of ex_world 0 "\<lparr>dir = ''cache'', entries = Some [2, 0, 1, 3]\<rparr>"
      "[2, 0, 1, 3]" 1500]
    unmap_lazy_exact [of ex_world 0 "\<lparr>dir = ''cache'', entries = Some [2, 0, 1, 3]\<rparr>"
      "[2, 0, 1, 3]" 500]
    unmap_lazy_exact [of ex_world_read 0 "\<lparr>dir = ''cache'', entries = Some [2, 0, 1, 3]\<rparr>"
      "[2, 0, 1, 3]" 1500]
  by (auto simp: ex_defs ex_world_read_def ex_read_def entry_after_def
      consensus_cache_entry_unmap_def TIME_MAX_def)

text \<open>
  Claim C3 as stated fails at the cutoff \<open>TIME_MAX\<close>: entry 3 of \<open>ex_world_read\<close> is
  mapped with an infinite \<open>unused_since\<close>, and the sweep unmaps it.
\<close>
theorem unmap_lazy_infinite_counterexample:
  "map_option unused_since (ents ex_world_read 3) = Some TIME_MAX
   \<and> map_option map_ptr (ents ex_world_read 3) = Some (Some [7, 8, 9, 10])
   \<and> map_option map_ptr (entry_after (consensus_cache_unmap_lazy ex_world_read 0 TIME_MAX) 3)
       = Some None"
  by (simp add: ex_defs ex_world_read_def ex_read_def entry_after_def
      consensus_cache_unmap_lazy_def consensus_cache_entry_unmap_def)

subsection \<open>The deletion sweep\<close>

lemma smartlist_del_app:
  "smartlist_del (xs @ p # ys) (length xs) =
     xs @ (if ys = [] then [] else last ys # butlast ys)"
  by (simp add: smartlist_del_def butlast_append)

lemma rot_last:
  assumes "ys \<noteq> []"
  shows "mset (last ys # butlast ys) = mset ys" "set (last ys # butlast ys) = set ys"
    "length (last ys # butlast ys) = length ys"
    "distinct (last ys # butlast ys) = distinct ys"
proof -
  have eq: "ys = butlast ys @ [last ys]" using assms by simp
  show "mset (last ys # butlast ys) = mset ys" by (subst (3) eq) simp
  then show "set (last ys # butlast ys) = set ys" by (metis set_mset_mset)
  show "length (last ys # butlast ys) = length ys" using assms by simp
  show "distinct (last ys # butlast ys) = distinct ys" by (subst (3) eq) (simp del: append_butlast_last_id, auto)
qed

lemma delete_pending_loop_spec:
  assumes "distinct pend" and "\<forall>p\<in>set pend. h p \<noteq> None"
  shows "\<exists>kept. delete_pending_loop force now (length pre) (pre @ pend) h d =
      Inr (pre @ kept,
           (\<lambda>q. if q \<in> set pend then Option.bind (h q) (swept force now) else h q),
           filter (\<lambda>x. \<forall>p\<in>set pend. \<forall>ent. h p = Some ent \<and> delete_due force ent
                          \<longrightarrow> fst x \<noteq> fname ent) d)
      \<and> mset kept = mset (filter (\<lambda>q. \<exists>ent. h q = Some ent \<and> \<not> delete_due force ent) pend)"
  using assms
proof (induction "length pend" arbitrary: pend pre h d rule: less_induct)
  case less
  show ?case
  proof (cases pend)
    case Nil
    then show ?thesis
      by (simp add: delete_pending_loop.simps [of force now "length pre" pre])
  next
    case (Cons p ys)
    from less.prems Cons obtain ent where ent: "h p = Some ent" by auto
    have pys: "p \<notin> set ys" "distinct ys" using less.prems Cons by auto
    show ?thesis
    proof (cases "delete_due force ent")
      case False
      have step: "delete_pending_loop force now (length pre) (pre @ pend) h d =
          delete_pending_loop force now (length (pre @ [p])) ((pre @ [p]) @ ys) h d"
        using ent False Cons
        by (subst delete_pending_loop.simps) (auto simp: delete_due_def)
      have live: "\<forall>q\<in>set ys. h q \<noteq> None" using less.prems Cons by auto
      from less.hyps [of ys h "pre @ [p]" d] pys live Cons
      obtain kept where k: "delete_pending_loop force now (length (pre @ [p])) ((pre @ [p]) @ ys) h d =
          Inr ((pre @ [p]) @ kept,
           (\<lambda>q. if q \<in> set ys then Option.bind (h q) (swept force now) else h q),
           filter (\<lambda>x. \<forall>p\<in>set ys. \<forall>ent. h p = Some ent \<and> delete_due force ent
                          \<longrightarrow> fst x \<noteq> fname ent) d)"
        and m: "mset kept = mset (filter (\<lambda>q. \<exists>ent. h q = Some ent \<and> \<not> delete_due force ent) ys)"
        by auto
      have hh: "(\<lambda>q. if q \<in> set ys then Option.bind (h q) (swept force now) else h q) =
          (\<lambda>q. if q \<in> set pend then Option.bind (h q) (swept force now) else h q)"
        using ent False Cons by (auto simp: swept_def intro!: ext)
      have dd: "filter (\<lambda>x. \<forall>p\<in>set ys. \<forall>ent. h p = Some ent \<and> delete_due force ent
                          \<longrightarrow> fst x \<noteq> fname ent) d =
           filter (\<lambda>x. \<forall>p\<in>set pend. \<forall>ent. h p = Some ent \<and> delete_due force ent
                          \<longrightarrow> fst x \<noteq> fname ent) d"
        using ent False Cons by (auto intro!: filter_cong)
      show ?thesis
        unfolding step k hh dd using m ent False Cons
        by (intro exI [of _ "p # kept"]) simp
    next
      case True
      define h1 where "h1 = h(p := consensus_cache_entry_decref now (ent\<lparr>in_cache := None\<rparr>))"
      define d1 where "d1 = storage_dir_remove_file d (fname ent)"
      define rs where "rs = (if ys = [] then [] else last ys # butlast ys)"
      have rs: "set rs = set ys" "distinct rs" "length rs = length ys" "mset rs = mset ys"
        using rot_last [of ys] pys by (auto simp: rs_def)
      have step: "delete_pending_loop force now (length pre) (pre @ pend) h d =
          delete_pending_loop force now (length pre) (pre @ rs) h1 d1"
        using ent True Cons
        by (subst delete_pending_loop.simps)
          (auto simp: delete_due_def decref_heap_def smartlist_del_app h1_def d1_def rs_def)
      have live: "\<forall>q\<in>set rs. h1 q \<noteq> None" using less.prems Cons pys rs by (auto simp: h1_def)
      have len: "length rs < length pend" using Cons rs by simp
      from less.hyps [OF len rs(2) live, of pre d1]
      obtain kept where k: "delete_pending_loop force now (length pre) (pre @ rs) h1 d1 =
          Inr (pre @ kept,
           (\<lambda>q. if q \<in> set rs then Option.bind (h1 q) (swept force now) else h1 q),
           filter (\<lambda>x. \<forall>p\<in>set rs. \<forall>ent. h1 p = Some ent \<and> delete_due force ent
                          \<longrightarrow> fst x \<noteq> fname ent) d1)"
        and m: "mset kept = mset (filter (\<lambda>q. \<exists>ent. h1 q = Some ent \<and> \<not> delete_due force ent) rs)"
        by auto
      have same: "h1 q = h q" if "q \<in> set ys" for q using that pys by (auto simp: h1_def)
      have hh: "(\<lambda>q. if q \<in> set rs then Option.bind (h1 q) (swept force now) else h1 q) =
          (\<lambda>q. if q \<in> set pend then Option.bind (h q) (swept force now) else h q)"
        using ent True Cons pys rs same by (auto simp: swept_def h1_def intro!: ext)
      have dd: "filter (\<lambda>x. \<forall>p\<in>set rs. \<forall>ent. h1 p = Some ent \<and> delete_due force ent
                          \<longrightarrow> fst x \<noteq> fname ent) d1 =
           filter (\<lambda>x. \<forall>p\<in>set pend. \<forall>ent. h p = Some ent \<and> delete_due force ent
                          \<longrightarrow> fst x \<noteq> fname ent) d"
        using ent True Cons rs same
        by (auto simp: d1_def storage_dir_remove_file_def intro!: filter_cong)
      have "mset (filter (\<lambda>q. \<exists>ent. h1 q = Some ent \<and> \<not> delete_due force ent) rs) =
            filter_mset (\<lambda>q. \<exists>ent. h1 q = Some ent \<and> \<not> delete_due force ent) (mset ys)"
        using rs(4) by (metis mset_filter)
      also have "\<dots> = filter_mset (\<lambda>q. \<exists>ent. h q = Some ent \<and> \<not> delete_due force ent) (mset ys)"
        using same by (auto intro!: filter_mset_cong)
      also have "\<dots> = mset (filter (\<lambda>q. \<exists>ent. h q = Some ent \<and> \<not> delete_due force ent) pend)"
        using ent True Cons by simp
      finally have mm: "mset (filter (\<lambda>q. \<exists>ent. h1 q = Some ent \<and> \<not> delete_due force ent) rs) =
          mset (filter (\<lambda>q. \<exists>ent. h q = Some ent \<and> \<not> delete_due force ent) pend)" .
      show ?thesis
        unfolding step k hh dd using m mm
        by (intro exI [of _ kept]) simp
    qed
  qed
qed

lemma map_of_filter_fst:
  "map_of (filter (\<lambda>x. P (fst x)) d) k = (if P k then map_of d k else None)"
  by (induction d) auto

lemma fst_filter_notin:
  "\<not> P k \<Longrightarrow> k \<notin> fst ` set (filter (\<lambda>x. P (fst x)) d)"
  by auto

lemma delete_pending_run:
  assumes "caches w c = Some cache" and "entries cache = Some sl" and "distinct sl"
    and "\<forall>p\<in>set sl. ents w p \<noteq> None"
  shows "\<exists>kept. consensus_cache_delete_pending w c force =
      Inr (w\<lparr>ents := (\<lambda>q. if q \<in> set sl then Option.bind (ents w q) (swept force (approx_time w))
                          else ents w q),
             caches := (caches w)(c \<mapsto> cache\<lparr>entries := Some kept\<rparr>),
             disk := (disk w)(dir cache :=
               filter (\<lambda>x. \<forall>p\<in>set sl. \<forall>ent. ents w p = Some ent \<and> delete_due force ent
                          \<longrightarrow> fst x \<noteq> fname ent) (disk w (dir cache)))\<rparr>)
      \<and> mset kept = mset (filter (\<lambda>q. \<exists>ent. ents w q = Some ent \<and> \<not> delete_due force ent) sl)"
proof -
  from delete_pending_loop_spec [OF assms(3,4), of force "approx_time w" "[]" "disk w (dir cache)"]
  obtain kept where k: "delete_pending_loop force (approx_time w) 0 sl (ents w) (disk w (dir cache)) =
      Inr (kept,
           (\<lambda>q. if q \<in> set sl then Option.bind (ents w q) (swept force (approx_time w)) else ents w q),
           filter (\<lambda>x. \<forall>p\<in>set sl. \<forall>ent. ents w p = Some ent \<and> delete_due force ent
                          \<longrightarrow> fst x \<noteq> fname ent) (disk w (dir cache)))"
    and m: "mset kept = mset (filter (\<lambda>q. \<exists>ent. ents w q = Some ent \<and> \<not> delete_due force ent) sl)"
    by auto
  show ?thesis
    using assms(1,2) k m
    by (intro exI [of _ kept]) (simp add: consensus_cache_delete_pending_def)
qed

text \<open>
  Claim C2. Take a cache whose collection holds distinct live entries with distinct file
  names. \<open>delete_pending\<close> returns, and for every entry of the collection marked for
  removal: without force and with a reference count above 1 the entry stays in the
  collection, unchanged, and its file stays in the directory as it was; without force,
  with reference count exactly 1 and its owning cache present, the entry is out of the
  collection and no file of its name is left in the directory; with force and a positive
  reference count the entry is out of the collection and its file gone, whatever its
  reference count.
\<close>
theorem delete_pending_sweep:
  assumes "caches w c = Some cache" and "entries cache = Some sl" and "distinct sl"
    and "\<forall>p\<in>set sl. ents w p \<noteq> None"
    and "\<forall>p\<in>set sl. \<forall>q\<in>set sl. \<forall>e1 e2.
           ents w p = Some e1 \<and> ents w q = Some e2 \<and> fname e1 = fname e2 \<longrightarrow> p = q"
  shows "\<exists>w' sl'. consensus_cache_delete_pending w c force = Inr w'
     \<and> caches w' c = Some (cache\<lparr>entries := Some sl'\<rparr>)
     \<and> (\<forall>p ent. p \<in> set sl \<and> ents w p = Some ent \<and> can_remove ent \<longrightarrow>
          (\<not> force \<and> 1 < sint (refcnt ent) \<longrightarrow>
             p \<in> set sl' \<and> ents w' p = Some ent
             \<and> map_of (disk w' (dir cache)) (fname ent) = map_of (disk w (dir cache)) (fname ent))
        \<and> (\<not> force \<and> sint (refcnt ent) = 1 \<and> in_cache ent \<noteq> None \<longrightarrow>
             p \<notin> set sl' \<and> fname ent \<notin> set (storage_dir_list (disk w' (dir cache))))
        \<and> (force \<and> 0 < sint (refcnt ent) \<longrightarrow>
             p \<notin> set sl' \<and> fname ent \<notin> set (storage_dir_list (disk w' (dir cache)))))"
proof -
  let ?P = "\<lambda>f. \<forall>p\<in>set sl. \<forall>ent. ents w p = Some ent \<and> delete_due force ent \<longrightarrow> f \<noteq> fname ent"
  from delete_pending_run [OF assms(1-4), of force]
  obtain kept where run: "consensus_cache_delete_pending w c force =
      Inr (w\<lparr>ents := (\<lambda>q. if q \<in> set sl then Option.bind (ents w q) (swept force (approx_time w))
                          else ents w q),
             caches := (caches w)(c \<mapsto> cache\<lparr>entries := Some kept\<rparr>),
             disk := (disk w)(dir cache := filter (\<lambda>x. ?P (fst x)) (disk w (dir cache)))\<rparr>)"
    and m: "mset kept = mset (filter (\<lambda>q. \<exists>ent. ents w q = Some ent \<and> \<not> delete_due force ent) sl)"
    by blast
  have kept: "set kept = {q \<in> set sl. \<exists>ent. ents w q = Some ent \<and> \<not> delete_due force ent}"
  proof -
    from m have "set_mset (mset kept) =
        set_mset (mset (filter (\<lambda>q. \<exists>ent. ents w q = Some ent \<and> \<not> delete_due force ent) sl))"
      by (rule arg_cong)
    then show ?thesis by (simp only: set_mset_mset set_filter)
  qed
  have held: "p \<in> set kept \<and> Option.bind (ents w p) (swept force (approx_time w)) = Some ent
      \<and> map_of (filter (\<lambda>x. ?P (fst x)) (disk w (dir cache))) (fname ent) =
          map_of (disk w (dir cache)) (fname ent)"
    if "p \<in> set sl" "ents w p = Some ent" "\<not> force" "1 < sint (refcnt ent)" for p ent
  proof -
    have nd: "\<not> delete_due force ent" using that by (simp add: delete_due_def)
    have "?P (fname ent)"
    proof (intro ballI allI impI)
      fix q e2 assume q: "q \<in> set sl" "ents w q = Some e2 \<and> delete_due force e2"
      show "fname ent \<noteq> fname e2"
      proof
        assume "fname ent = fname e2"
        with assms(5) that(1,2) q have "p = q" by blast
        with q that(2) nd show False by simp
      qed
    qed
    then have "map_of (filter (\<lambda>x. ?P (fst x)) (disk w (dir cache))) (fname ent) =
        map_of (disk w (dir cache)) (fname ent)"
      by (simp add: map_of_filter_fst [of ?P])
    moreover have "p \<in> set kept" using that nd by (simp add: kept)
    moreover have "Option.bind (ents w p) (swept force (approx_time w)) = Some ent"
      using that nd by (simp add: swept_def)
    ultimately show ?thesis by blast
  qed
  have gone: "p \<notin> set kept \<and> fname ent \<notin> fst ` set (filter (\<lambda>x. ?P (fst x)) (disk w (dir cache)))"
    if "p \<in> set sl" "ents w p = Some ent" "delete_due force ent" for p ent
  proof
    show "p \<notin> set kept" using that by (simp add: kept)
    have "\<not> ?P (fname ent)" using that by blast
    then show "fname ent \<notin> fst ` set (filter (\<lambda>x. ?P (fst x)) (disk w (dir cache)))"
      by (rule fst_filter_notin [of ?P])
  qed
  define w' where "w' = w\<lparr>ents := (\<lambda>q. if q \<in> set sl then Option.bind (ents w q) (swept force (approx_time w))
                          else ents w q),
             caches := (caches w)(c \<mapsto> cache\<lparr>entries := Some kept\<rparr>),
             disk := (disk w)(dir cache := filter (\<lambda>x. ?P (fst x)) (disk w (dir cache)))\<rparr>"
  have e': "ents w' p = Option.bind (ents w p) (swept force (approx_time w))" if "p \<in> set sl" for p
    using that by (simp add: w'_def)
  have c': "caches w' c = Some (cache\<lparr>entries := Some kept\<rparr>)" by (simp add: w'_def)
  have d': "disk w' (dir cache) = filter (\<lambda>x. ?P (fst x)) (disk w (dir cache))"
    by (simp add: w'_def)
  have main: "(\<not> force \<and> 1 < sint (refcnt ent) \<longrightarrow>
             p \<in> set kept \<and> ents w' p = Some ent
             \<and> map_of (disk w' (dir cache)) (fname ent) = map_of (disk w (dir cache)) (fname ent))
        \<and> (\<not> force \<and> sint (refcnt ent) = 1 \<and> in_cache ent \<noteq> None \<longrightarrow>
             p \<notin> set kept \<and> fname ent \<notin> set (storage_dir_list (disk w' (dir cache))))
        \<and> (force \<and> 0 < sint (refcnt ent) \<longrightarrow>
             p \<notin> set kept \<and> fname ent \<notin> set (storage_dir_list (disk w' (dir cache))))"
    if pe: "p \<in> set sl \<and> ents w p = Some ent \<and> can_remove ent" for p ent
  proof (intro conjI impI)
    assume a: "\<not> force \<and> 1 < sint (refcnt ent)"
    have h: "p \<in> set kept \<and> Option.bind (ents w p) (swept force (approx_time w)) = Some ent
      \<and> map_of (filter (\<lambda>x. ?P (fst x)) (disk w (dir cache))) (fname ent) =
          map_of (disk w (dir cache)) (fname ent)"
      using pe a by (intro held) simp_all
    from h show "p \<in> set kept" by (rule conjunct1)
    from h pe show "ents w' p = Some ent" by (simp add: e')
    show "map_of (disk w' (dir cache)) (fname ent) = map_of (disk w (dir cache)) (fname ent)"
      unfolding d' using h by blast
  next
    assume a: "\<not> force \<and> sint (refcnt ent) = 1 \<and> in_cache ent \<noteq> None"
    then have due: "delete_due force ent" using pe by (simp add: delete_due_def)
    from gone [of p ent] pe due show "p \<notin> set kept" by blast
    show "fname ent \<notin> set (storage_dir_list (disk w' (dir cache)))"
      unfolding d' storage_dir_list_def set_map using gone [of p ent] pe due by blast
  next
    assume a: "force \<and> 0 < sint (refcnt ent)"
    then have due: "delete_due force ent" using pe by (simp add: delete_due_def)
    from gone [of p ent] pe due show "p \<notin> set kept" by blast
    show "fname ent \<notin> set (storage_dir_list (disk w' (dir cache)))"
      unfolding d' storage_dir_list_def set_map using gone [of p ent] pe due by blast
  qed
  have r: "consensus_cache_delete_pending w c force = Inr w'"
    using run by (simp only: w'_def)
  from r c' main show ?thesis by blast
qed

theorem delete_pending_sweep_witness:
  "(\<exists>w' sl'. consensus_cache_delete_pending ex_world 0 False = Inr w'
       \<and> collection_after (Inr w') 0 = Some sl' \<and> 1 \<in> set sl' \<and> 2 \<notin> set sl'
       \<and> ''f2'' \<notin> set (files_after (Inr w') ''cache'')
       \<and> map_of (disk w' ''cache'') ''f1'' = Some (Some ([(''format'', ''microdesc'')], [4])))
   \<and> (\<exists>w' sl'. consensus_cache_delete_pending ex_world 0 True = Inr w'
       \<and> collection_after (Inr w') 0 = Some sl' \<and> 1 \<notin> set sl' \<and> 2 \<notin> set sl'
       \<and> ''f1'' \<notin> set (files_after (Inr w') ''cache'')
       \<and> ''f2'' \<notin> set (files_after (Inr w') ''cache''))"
proof -
  let ?cache = "\<lparr>dir = ''cache'', entries = Some [2, 0, 1, 3]\<rparr>"
  have a1: "caches ex_world 0 = Some ?cache" by (simp add: ex_defs)
  have a2: "entries ?cache = Some [2, 0, 1, 3]" by simp
  have a3: "distinct [2, 0, 1, 3 :: nat]" by simp
  have a4: "\<forall>p\<in>set [2, 0, 1, 3]. ents ex_world p \<noteq> None" by (simp add: ex_defs)
  have a5: "\<forall>p\<in>set [2, 0, 1, 3]. \<forall>q\<in>set [2, 0, 1, 3]. \<forall>e1 e2.
           ents ex_world p = Some e1 \<and> ents ex_world q = Some e2 \<and> fname e1 = fname e2
           \<longrightarrow> p = q"
    by (simp add: ex_defs)
  have e1: "ents ex_world 1 = Some ex_pending_held" and e2: "ents ex_world 2 = Some ex_pending_free"
    by (simp_all add: ex_defs)
  have f1: "map_of (disk ex_world ''cache'') ''f1'' = Some (Some ([(''format'', ''microdesc'')], [4]))"
    by (simp add: ex_defs)
  from delete_pending_sweep [OF a1 a2 a3 a4 a5, of False]
  obtain w' sl' where r: "consensus_cache_delete_pending ex_world 0 False = Inr w'"
    and c: "caches w' 0 = Some (?cache\<lparr>entries := Some sl'\<rparr>)"
    and k1: "1 \<in> set sl'"
    and m1: "map_of (disk w' ''cache'') ''f1'' = map_of (disk ex_world ''cache'') ''f1''"
    and k2: "2 \<notin> set sl'" and g2: "''f2'' \<notin> set (storage_dir_list (disk w' ''cache''))"
    using e1 e2 by (fastforce simp: ex_pending_held_def ex_pending_free_def)
  from delete_pending_sweep [OF a1 a2 a3 a4 a5, of True]
  obtain v' tl' where r': "consensus_cache_delete_pending ex_world 0 True = Inr v'"
    and c': "caches v' 0 = Some (?cache\<lparr>entries := Some tl'\<rparr>)"
    and j1: "1 \<notin> set tl'" and h1: "''f1'' \<notin> set (storage_dir_list (disk v' ''cache''))"
    and j2: "2 \<notin> set tl'" and h2: "''f2'' \<notin> set (storage_dir_list (disk v' ''cache''))"
    using e1 e2 by (fastforce simp: ex_pending_held_def ex_pending_free_def)
  show ?thesis
    using r c k1 m1 k2 g2 r' c' j1 h1 j2 h2 f1
    by (simp add: collection_after_def files_after_def)
qed

subsection \<open>Clearing and closing\<close>

lemma clear_loop_spec:
  assumes "distinct sl" and "\<forall>p\<in>set sl. h p \<noteq> None"
  shows "clear_loop now sl h =
     Inr (\<lambda>q. if q \<in> set sl then Option.bind (h q) (released now) else h q)"
  using assms
proof (induction sl arbitrary: h)
  case Nil
  then show ?case by simp
next
  case (Cons p ps)
  from Cons.prems obtain ent where ent: "h p = Some ent" by auto
  define h1 where "h1 = h(p := released now ent)"
  have step: "clear_loop now (p # ps) h = clear_loop now ps h1"
    using ent by (simp add: decref_heap_def h1_def released_def)
  have d: "distinct ps" and np: "p \<notin> set ps" using Cons.prems by auto
  have live: "\<forall>q\<in>set ps. h1 q \<noteq> None" using Cons.prems np by (auto simp: h1_def)
  have "(\<lambda>q. if q \<in> set ps then Option.bind (h1 q) (released now) else h1 q) =
        (\<lambda>q. if q \<in> set (p # ps) then Option.bind (h q) (released now) else h q)"
    using ent np by (auto simp: h1_def intro!: ext)
  then show ?case
    unfolding step using Cons.IH [OF d live] by simp
qed

lemma clear_run:
  assumes "caches w c = Some cache" and "entries cache = Some sl" and "distinct sl"
    and "\<forall>p\<in>set sl. ents w p \<noteq> None"
  shows "consensus_cache_clear w c =
      Inr (w\<lparr>ents := (\<lambda>q. if q \<in> set sl then Option.bind (ents w q) (released (approx_time w))
                          else ents w q),
             caches := (caches w)(c \<mapsto> cache\<lparr>entries := None\<rparr>),
             disk := (disk w)(dir cache :=
               filter (\<lambda>x. \<forall>p\<in>set sl. \<forall>ent. ents w p = Some ent \<and> delete_due False ent
                          \<longrightarrow> fst x \<noteq> fname ent) (disk w (dir cache)))\<rparr>)"
proof -
  let ?now = "approx_time w"
  let ?h1 = "\<lambda>q. if q \<in> set sl then Option.bind (ents w q) (swept False ?now) else ents w q"
  let ?d1 = "(disk w)(dir cache :=
               filter (\<lambda>x. \<forall>p\<in>set sl. \<forall>ent. ents w p = Some ent \<and> delete_due False ent
                          \<longrightarrow> fst x \<noteq> fname ent) (disk w (dir cache)))"
  from delete_pending_run [OF assms, of False]
  obtain kept where run: "consensus_cache_delete_pending w c False =
      Inr (w\<lparr>ents := ?h1, caches := (caches w)(c \<mapsto> cache\<lparr>entries := Some kept\<rparr>), disk := ?d1\<rparr>)"
    and m: "mset kept = mset (filter (\<lambda>q. \<exists>ent. ents w q = Some ent \<and> \<not> delete_due False ent) sl)"
    by blast
  have kept: "set kept = {q \<in> set sl. \<exists>ent. ents w q = Some ent \<and> \<not> delete_due False ent}"
  proof -
    from m have "set_mset (mset kept) =
        set_mset (mset (filter (\<lambda>q. \<exists>ent. ents w q = Some ent \<and> \<not> delete_due False ent) sl))"
      by (rule arg_cong)
    then show ?thesis by (simp only: set_mset_mset set_filter)
  qed
  have dk: "distinct kept"
  proof -
    have "distinct (filter (\<lambda>q. \<exists>ent. ents w q = Some ent \<and> \<not> delete_due False ent) sl)"
      using assms(3) by (rule distinct_filter)
    with mset_eq_imp_distinct_iff [OF m] show ?thesis by simp
  qed
  have live: "\<forall>p\<in>set kept. ?h1 p \<noteq> None"
    by (auto simp: kept swept_def)
  have loop: "clear_loop ?now kept ?h1 =
      Inr (\<lambda>q. if q \<in> set kept then Option.bind (?h1 q) (released ?now) else ?h1 q)"
    using dk live by (rule clear_loop_spec)
  have fin: "(\<lambda>q. if q \<in> set kept then Option.bind (?h1 q) (released ?now) else ?h1 q) =
      (\<lambda>q. if q \<in> set sl then Option.bind (ents w q) (released ?now) else ents w q)"
  proof (rule ext)
    fix q
    show "(if q \<in> set kept then Option.bind (?h1 q) (released ?now) else ?h1 q) =
      (if q \<in> set sl then Option.bind (ents w q) (released ?now) else ents w q)"
    proof (cases "q \<in> set sl")
      case False
      then show ?thesis by (simp add: kept)
    next
      case True
      with assms(4) obtain ent where ent: "ents w q = Some ent" by auto
      show ?thesis
        using True ent by (cases "delete_due False ent") (simp_all add: kept swept_def released_def)
    qed
  qed
  show ?thesis
    by (simp add: consensus_cache_clear_def run loop fin)
qed

lemma released_last:
  assumes "magic ent = CCE_MAGIC" and "sint (refcnt ent) = 1"
  shows "released now ent = None"
proof -
  have "sint (refcnt ent - 1) = 0" using sint_pred32 [of "refcnt ent"] assms(2) by simp
  then show ?thesis
    using assms by (simp add: released_def consensus_cache_entry_decref_def Let_def)
qed

lemma released_held:
  assumes "magic ent = CCE_MAGIC" and "1 < sint (refcnt ent)"
  shows "released now ent = Some (ent\<lparr>in_cache := None, refcnt := refcnt ent - 1\<rparr>)"
proof -
  have "sint (refcnt ent - 1) = sint (refcnt ent) - 1"
    using sint_pred32 [of "refcnt ent"] assms(2) by simp
  then show ?thesis
    using assms by (simp add: released_def consensus_cache_entry_decref_def Let_def)
qed

text \<open>
  Claim C1, as the code has it. \<open>consensus_cache_clear\<close>, which \<open>consensus_cache_free\<close>
  and the start of a rescan both run, calls the deletion sweep without force. Take a
  cache whose collection holds distinct live entries with distinct file names. Clearing,
  closing and rescanning return; clearing leaves the collection \<open>NULL\<close>, closing releases
  the cache, and neither closing nor the rescan touches the directory further. For an
  entry of the collection with a valid tag that is marked for removal: when the cache
  holds the only reference (count 1, owning cache present) the entry is freed and no
  file of its name is left; when its count is above 1 its file stays as it was, and the
  entry lives on detached from the cache with one reference less.
\<close>
theorem clear_is_not_forced:
  assumes "caches w c = Some cache" and "entries cache = Some sl" and "distinct sl"
    and "\<forall>p\<in>set sl. ents w p \<noteq> None"
    and "\<forall>p\<in>set sl. \<forall>q\<in>set sl. \<forall>e1 e2.
           ents w p = Some e1 \<and> ents w q = Some e2 \<and> fname e1 = fname e2 \<longrightarrow> p = q"
  shows "\<exists>w1 w2 w3. consensus_cache_clear w c = Inr w1
     \<and> consensus_cache_free w (Some c) = Inr w2
     \<and> consensus_cache_rescan w c = Inr w3
     \<and> caches w1 c = Some (cache\<lparr>entries := None\<rparr>) \<and> caches w2 c = None
     \<and> ents w2 = ents w1 \<and> disk w2 = disk w1 \<and> disk w3 = disk w1
     \<and> (\<forall>p ent. p \<in> set sl \<and> ents w p = Some ent \<and> can_remove ent \<and> magic ent = CCE_MAGIC \<longrightarrow>
          (sint (refcnt ent) = 1 \<and> in_cache ent \<noteq> None \<longrightarrow>
             ents w1 p = None \<and> fname ent \<notin> set (storage_dir_list (disk w1 (dir cache))))
        \<and> (1 < sint (refcnt ent) \<longrightarrow>
             ents w1 p = Some (ent\<lparr>in_cache := None, refcnt := refcnt ent - 1\<rparr>)
             \<and> map_of (disk w1 (dir cache)) (fname ent) = map_of (disk w (dir cache)) (fname ent)))"
proof -
  let ?P = "\<lambda>f. \<forall>p\<in>set sl. \<forall>ent. ents w p = Some ent \<and> delete_due False ent \<longrightarrow> f \<noteq> fname ent"
  define w1 where "w1 = w\<lparr>ents := (\<lambda>q. if q \<in> set sl
                              then Option.bind (ents w q) (released (approx_time w))
                              else ents w q),
             caches := (caches w)(c \<mapsto> cache\<lparr>entries := None\<rparr>),
             disk := (disk w)(dir cache := filter (\<lambda>x. ?P (fst x)) (disk w (dir cache)))\<rparr>"
  have r1: "consensus_cache_clear w c = Inr w1"
    unfolding w1_def using assms(1-4) by (rule clear_run)
  have c1: "caches w1 c = Some (cache\<lparr>entries := None\<rparr>)" by (simp add: w1_def)
  have d1: "disk w1 (dir cache) = filter (\<lambda>x. ?P (fst x)) (disk w (dir cache))"
    by (simp add: w1_def)
  have e1: "ents w1 p = Option.bind (ents w p) (released (approx_time w))" if "p \<in> set sl" for p
    using that by (simp add: w1_def)
  define w2 where "w2 = w1\<lparr>caches := (caches w1)(c := None)\<rparr>"
  have r2: "consensus_cache_free w (Some c) = Inr w2"
    using assms(1,2) r1 by (simp add: consensus_cache_free_def w2_def)
  obtain sl3 h3 n3 where loop: "rescan_loop c (disk w1 (dir (cache\<lparr>entries := None\<rparr>)))
      (storage_dir_list (disk w1 (dir (cache\<lparr>entries := None\<rparr>)))) ([], ents w1, next_ptr w1)
      = (sl3, h3, n3)"
    by (rule prod_cases3)
  define w3 where "w3 = w1\<lparr>ents := h3,
      caches := (caches w1)(c \<mapsto> cache\<lparr>entries := None\<rparr>\<lparr>entries := Some sl3\<rparr>), next_ptr := n3\<rparr>"
  have r3: "consensus_cache_rescan w c = Inr w3"
    using assms(1,2) r1 c1 loop by (simp add: consensus_cache_rescan_def w3_def)
  have main: "(sint (refcnt ent) = 1 \<and> in_cache ent \<noteq> None \<longrightarrow>
             ents w1 p = None \<and> fname ent \<notin> set (storage_dir_list (disk w1 (dir cache))))
        \<and> (1 < sint (refcnt ent) \<longrightarrow>
             ents w1 p = Some (ent\<lparr>in_cache := None, refcnt := refcnt ent - 1\<rparr>)
             \<and> map_of (disk w1 (dir cache)) (fname ent) = map_of (disk w (dir cache)) (fname ent))"
    if pe: "p \<in> set sl \<and> ents w p = Some ent \<and> can_remove ent \<and> magic ent = CCE_MAGIC" for p ent
  proof (intro conjI impI)
    assume a: "sint (refcnt ent) = 1 \<and> in_cache ent \<noteq> None"
    show "ents w1 p = None" using pe a by (simp add: e1 released_last)
    have due: "delete_due False ent" using pe a by (simp add: delete_due_def)
    have "\<not> ?P (fname ent)" using pe due by blast
    then have "fname ent \<notin> fst ` set (filter (\<lambda>x. ?P (fst x)) (disk w (dir cache)))"
      by (rule fst_filter_notin [of ?P])
    then show "fname ent \<notin> set (storage_dir_list (disk w1 (dir cache)))"
      unfolding d1 storage_dir_list_def set_map .
  next
    assume a: "1 < sint (refcnt ent)"
    show "ents w1 p = Some (ent\<lparr>in_cache := None, refcnt := refcnt ent - 1\<rparr>)"
      using pe a by (simp add: e1 released_held)
    have nd: "\<not> delete_due False ent" using a by (simp add: delete_due_def)
    have "?P (fname ent)"
    proof (intro ballI allI impI)
      fix q e2 assume q: "q \<in> set sl" "ents w q = Some e2 \<and> delete_due False e2"
      show "fname ent \<noteq> fname e2"
      proof
        assume "fname ent = fname e2"
        with assms(5) pe q have "p = q" by blast
        with q pe nd show False by simp
      qed
    qed
    then show "map_of (disk w1 (dir cache)) (fname ent) = map_of (disk w (dir cache)) (fname ent)"
      unfolding d1 by (simp add: map_of_filter_fst [of ?P])
  qed
  have c2: "caches w2 c = None" and e2: "ents w2 = ents w1" and d2: "disk w2 = disk w1"
    by (simp_all add: w2_def)
  have d3: "disk w3 = disk w1" by (simp add: w3_def)
  from r1 r2 r3 c1 c2 e2 d2 d3 main show ?thesis by blast
qed

theorem clear_is_not_forced_witness:
  "\<exists>w1 w2. consensus_cache_clear ex_world 0 = Inr w1
     \<and> consensus_cache_free ex_world (Some 0) = Inr w2
     \<and> caches w2 0 = None \<and> ents w2 = ents w1 \<and> disk w2 = disk w1
     \<and> ents w1 2 = None \<and> ''f2'' \<notin> set (storage_dir_list (disk w1 ''cache''))
     \<and> ents w1 1 = Some (ex_pending_held\<lparr>in_cache := None, refcnt := 1\<rparr>)
     \<and> map_of (disk w1 ''cache'') ''f1'' = Some (Some ([(''format'', ''microdesc'')], [4]))"
proof -
  let ?cache = "\<lparr>dir = ''cache'', entries = Some [2, 0, 1, 3]\<rparr>"
  have a1: "caches ex_world 0 = Some ?cache" by (simp add: ex_defs)
  have a2: "entries ?cache = Some [2, 0, 1, 3]" by simp
  have a3: "distinct [2, 0, 1, 3 :: nat]" by simp
  have a4: "\<forall>p\<in>set [2, 0, 1, 3]. ents ex_world p \<noteq> None" by (simp add: ex_defs)
  have a5: "\<forall>p\<in>set [2, 0, 1, 3]. \<forall>q\<in>set [2, 0, 1, 3]. \<forall>e1 e2.
           ents ex_world p = Some e1 \<and> ents ex_world q = Some e2 \<and> fname e1 = fname e2
           \<longrightarrow> p = q"
    by (simp add: ex_defs)
  have e1: "ents ex_world 1 = Some ex_pending_held" and e2: "ents ex_world 2 = Some ex_pending_free"
    by (simp_all add: ex_defs)
  have f1: "map_of (disk ex_world ''cache'') ''f1'' = Some (Some ([(''format'', ''microdesc'')], [4]))"
    by (simp add: ex_defs)
  from clear_is_not_forced [OF a1 a2 a3 a4 a5]
  obtain w1 w2 where r: "consensus_cache_clear ex_world 0 = Inr w1"
      "consensus_cache_free ex_world (Some 0) = Inr w2"
      "caches w2 0 = None" "ents w2 = ents w1" "disk w2 = disk w1"
    and k2: "ents w1 2 = None" "''f2'' \<notin> set (storage_dir_list (disk w1 ''cache''))"
    and k1: "ents w1 1 = Some (ex_pending_held\<lparr>in_cache := None, refcnt := refcnt ex_pending_held - 1\<rparr>)"
      "map_of (disk w1 ''cache'') ''f1'' = map_of (disk ex_world ''cache'') ''f1''"
    using e1 e2 by (fastforce simp: ex_pending_held_def ex_pending_free_def)
  show ?thesis
    using r k2 k1 f1 by (simp add: ex_pending_held_def)
qed

text \<open>
  Claim C1 as stated fails: entry 1 of \<open>ex_world\<close> is marked for removal with reference
  count 2, and after the collection is cleared, or the cache closed, its file \<open>f1\<close> is
  still in the directory.
\<close>
theorem clear_keeps_held_file_counterexample:
  "ents ex_world 1 = Some ex_pending_held \<and> can_remove ex_pending_held
   \<and> sint (refcnt ex_pending_held) = 2
   \<and> ''f1'' \<in> set (files_after (consensus_cache_clear ex_world 0) ''cache'')
   \<and> ''f1'' \<in> set (files_after (consensus_cache_free ex_world (Some 0)) ''cache'')"
proof -
  let ?cache = "\<lparr>dir = ''cache'', entries = Some [2, 0, 1, 3]\<rparr>"
  have a1: "caches ex_world 0 = Some ?cache" by (simp add: ex_defs)
  have a2: "entries ?cache = Some [2, 0, 1, 3]" by simp
  have a3: "distinct [2, 0, 1, 3 :: nat]" by simp
  have a4: "\<forall>p\<in>set [2, 0, 1, 3]. ents ex_world p \<noteq> None" by (simp add: ex_defs)
  note run = clear_run [OF a1 a2 a3 a4]
  have c: "''f1'' \<in> set (files_after (consensus_cache_clear ex_world 0) ''cache'')"
    unfolding run by (simp add: files_after_def storage_dir_list_def ex_defs delete_due_def)
  have "files_after (consensus_cache_free ex_world (Some 0)) ''cache'' =
      files_after (consensus_cache_clear ex_world 0) ''cache''"
    using a1 by (simp add: consensus_cache_free_def run files_after_def)
  with c have f: "''f1'' \<in> set (files_after (consensus_cache_free ex_world (Some 0)) ''cache'')"
    by simp
  show ?thesis using c f by (simp add: ex_defs)
qed

subsection \<open>Filtering a list\<close>

lemma filter_list_loop_spec:
  assumes "\<forall>p\<in>set pend. h p \<noteq> None"
  shows "\<exists>kept. filter_list_loop h key value (length pre) (pre @ pend) = Inr (pre @ kept)
      \<and> mset kept = mset (filter (label_is h key value) pend)"
  using assms
proof (induction "length pend" arbitrary: pend pre rule: less_induct)
  case less
  show ?case
  proof (cases pend)
    case Nil
    then show ?thesis
      by (simp add: filter_list_loop.simps [of h key "value" "length pre" pre])
  next
    case (Cons p ys)
    from less.prems Cons obtain ent where ent: "h p = Some ent" by auto
    have live: "\<forall>q\<in>set ys. h q \<noteq> None" using less.prems Cons by auto
    show ?thesis
    proof (cases "label_is h key value p")
      case True
      have step: "filter_list_loop h key value (length pre) (pre @ pend) =
          filter_list_loop h key value (length (pre @ [p])) ((pre @ [p]) @ ys)"
        using ent True Cons
        by (subst filter_list_loop.simps) (simp add: label_is_def get_value_map_of Let_def)
      from less.hyps [of ys "pre @ [p]"] live Cons
      obtain kept where k: "filter_list_loop h key value (length (pre @ [p])) ((pre @ [p]) @ ys) =
          Inr ((pre @ [p]) @ kept)"
        and m: "mset kept = mset (filter (label_is h key value) ys)"
        by auto
      show ?thesis
        unfolding step k using m True Cons by (intro exI [of _ "p # kept"]) simp
    next
      case False
      define rs where "rs = (if ys = [] then [] else last ys # butlast ys)"
      have rs: "set rs = set ys" "length rs = length ys" "mset rs = mset ys"
        using rot_last [of ys] by (auto simp: rs_def)
      have step: "filter_list_loop h key value (length pre) (pre @ pend) =
          filter_list_loop h key value (length pre) (pre @ rs)"
        using ent False Cons
        by (subst filter_list_loop.simps)
          (auto simp: label_is_def get_value_map_of Let_def smartlist_del_app rs_def)
      have live': "\<forall>q\<in>set rs. h q \<noteq> None" using live rs by simp
      have len: "length rs < length pend" using Cons rs by simp
      from less.hyps [OF len live', of pre]
      obtain kept where k: "filter_list_loop h key value (length pre) (pre @ rs) = Inr (pre @ kept)"
        and m: "mset kept = mset (filter (label_is h key value) rs)"
        by auto
      have "mset (filter (label_is h key value) rs) = mset (filter (label_is h key value) ys)"
        using rs(3) by (simp only: mset_filter)
      then show ?thesis
        unfolding step k using m False Cons by (intro exI [of _ kept]) simp
    qed
  qed
qed

text \<open>
  Claim C9, as the code has it. On a list of live entries and a given key,
  \<open>consensus_cache_filter_list\<close> returns, and the list it leaves holds exactly the entries
  whose label list gives the key the given value (\<open>label_is\<close>: the first pair with that
  key), each as often as the input list holds it: a permutation of that subsequence of
  the input. With no key the list is unchanged, and a \<open>NULL\<close> list stays \<open>NULL\<close>. The
  function reads the entries and writes none: it returns the list only.
\<close>
theorem filter_list_retains_matches:
  assumes "\<forall>p\<in>set sl. ents w p \<noteq> None"
  shows "(\<exists>sl'. consensus_cache_filter_list w (Some sl) (Some key) value = Inr (Some sl')
            \<and> mset sl' = mset (filter (label_is (ents w) key value) sl))
     \<and> consensus_cache_filter_list w (Some sl) None value = Inr (Some sl)
     \<and> consensus_cache_filter_list w None (Some key) value = Inr None"
proof -
  from filter_list_loop_spec [OF assms, of key "value" "[]"]
  obtain kept where "filter_list_loop (ents w) key value 0 sl = Inr kept"
    and "mset kept = mset (filter (label_is (ents w) key value) sl)"
    by auto
  then show ?thesis
    by (simp add: consensus_cache_filter_list_def)
qed

theorem filter_list_retains_matches_witness:
  "(\<exists>sl'. consensus_cache_filter_list ex_labelled (Some [2, 0, 1, 3]) (Some ''format'')
         ''microdesc'' = Inr (Some sl')
       \<and> mset sl' = {#0, 1, 3#})
   \<and> (\<exists>sl'. consensus_cache_filter_list ex_labelled (Some [2, 0, 1, 3]) (Some ''type'')
         ''consensus'' = Inr (Some sl')
       \<and> mset sl' = {#2, 0#})
   \<and> consensus_cache_filter_list ex_labelled (Some [2, 0, 1, 3]) (Some ''flavor'')
         ''microdesc'' = Inr (Some [])
   \<and> consensus_cache_filter_list ex_labelled (Some [2, 0, 1, 3]) None ''microdesc''
         = Inr (Some [2, 0, 1, 3])"
proof -
  have a: "\<forall>p\<in>set [2, 0, 1, 3]. ents ex_labelled p \<noteq> None"
    by (simp add: ex_labelled_def)
  have f1: "filter (label_is (ents ex_labelled) ''format'' ''microdesc'') [2, 0, 1, 3] = [0, 1, 3]"
    by (simp add: label_is_def ex_labelled_def ex_plain_def)
  have f2: "filter (label_is (ents ex_labelled) ''type'' ''consensus'') [2, 0, 1, 3] = [2, 0]"
    by (simp add: label_is_def ex_labelled_def ex_plain_def)
  have f3: "filter (label_is (ents ex_labelled) ''flavor'' ''microdesc'') [2, 0, 1, 3] = []"
    by (simp add: label_is_def ex_labelled_def ex_plain_def)
  note fl = filter_list_retains_matches [OF a]
  from fl [of "''format''" "''microdesc''"] f1
  have c1: "\<exists>sl'. consensus_cache_filter_list ex_labelled (Some [2, 0, 1, 3]) (Some ''format'')
         ''microdesc'' = Inr (Some sl') \<and> mset sl' = {#0, 1, 3#}"
    by auto
  from fl [of "''type''" "''consensus''"] f2
  have c2: "\<exists>sl'. consensus_cache_filter_list ex_labelled (Some [2, 0, 1, 3]) (Some ''type'')
         ''consensus'' = Inr (Some sl') \<and> mset sl' = {#2, 0#}"
    by auto
  from fl [of "''flavor''" "''microdesc''"] f3
  have c3: "consensus_cache_filter_list ex_labelled (Some [2, 0, 1, 3]) (Some ''flavor'')
         ''microdesc'' = Inr (Some [])"
    by auto
  from fl [of "''format''" "''microdesc''"]
  have c4: "consensus_cache_filter_list ex_labelled (Some [2, 0, 1, 3]) None ''microdesc''
         = Inr (Some [2, 0, 1, 3])"
    by blast
  from c1 c2 c3 c4 show ?thesis by blast
qed

text \<open>
  Claim C9 as stated fails on the order: a removal moves the last element of the list
  into the vacated slot. From the list 2, 0, 1, 3, whose entries 0, 1 and 3 have the
  format microdesc among their labels, the filter leaves 3, 0, 1, not the subsequence
  0, 1, 3.
\<close>
theorem filter_list_order_counterexample:
  "consensus_cache_filter_list ex_labelled (Some [2, 0, 1, 3]) (Some ''format'') ''microdesc''
     = Inr (Some [3, 0, 1])
   \<and> filter (label_is (ents ex_labelled) ''format'' ''microdesc'') [2, 0, 1, 3] = [0, 1, 3]"
proof -
  have f: "filter (label_is (ents ex_labelled) ''format'' ''microdesc'') [2, 0, 1, 3] = [0, 1, 3]"
    by (simp add: label_is_def ex_labelled_def ex_plain_def)
  have "filter_list_loop (ents ex_labelled) ''format'' ''microdesc'' 0 [2, 0, 1, 3] = Inr [3, 0, 1]"
    by (simp add: filter_list_loop.simps smartlist_del_def ex_labelled_def ex_plain_def
        consensus_cache_entry_get_value_def config_line_find_def)
  then show ?thesis using f by (simp add: consensus_cache_filter_list_def)
qed

subsection \<open>Adding\<close>

lemma config_line_find_distinct:
  "distinct (map fst ls) \<Longrightarrow> (k, v) \<in> set ls \<Longrightarrow> config_line_find ls k = Some (k, v)"
  unfolding config_line_find_def
  by (induction ls) (auto simp: rev_image_eqI)

text \<open>
  Claim C6, as the code has it. Take a cache whose collection exists and holds live
  entries, labels with distinct keys, and a backend write that succeeds under a new file
  name. Then \<open>add\<close> returns a pointer to a new entry with reference count 2, an infinite
  \<open>unused_since\<close>, the given labels, a valid tag, the cache as owner and no mapping; the
  pointer is appended to the cache's collection; for every label given, \<open>find_all\<close> by
  that key and value returns a list containing the new entry and \<open>find_first\<close> returns an
  entry carrying that label; and \<open>get_body\<close> on the new entry returns 0 with exactly the
  bytes written and their length.
\<close>
theorem add_success:
  assumes "caches w c = Some cache" and "entries cache = Some sl"
    and "\<forall>q\<in>set sl. ents w q \<noteq> None"
    and "f \<notin> set (storage_dir_list (disk w (dir cache)))"
    and "distinct (map fst ls)"
  shows "\<exists>w' p ent. consensus_cache_add w c ls data (Some f) = Inr (w', Some p)
     \<and> ents w' p = Some ent \<and> refcnt ent = 2 \<and> unused_since ent = TIME_MAX
     \<and> labels ent = ls \<and> fname ent = f \<and> in_cache ent = Some c \<and> magic ent = CCE_MAGIC
     \<and> \<not> can_remove ent \<and> \<not> consensus_cache_entry_is_mapped ent
     \<and> caches w' c = Some (cache\<lparr>entries := Some (sl @ [p])\<rparr>)
     \<and> (\<forall>k v. (k, v) \<in> set ls \<longrightarrow>
          (\<exists>r q. consensus_cache_find_all [] w' c (Some k) v = Inr r \<and> p \<in> set r
             \<and> consensus_cache_find_first w' c (Some k) v = Inr (Some q)
             \<and> label_is (ents w') k v q))
     \<and> (\<exists>w''. consensus_cache_entry_get_body w' p = Inr (w'', 0, Some (Some data, length data)))"
proof -
  define p where "p = next_ptr w"
  define ent where "ent = \<lparr>magic = CCE_MAGIC, refcnt = 2, can_remove = False,
      release_aggressively = False, fname = f, labels = ls, in_cache = Some c,
      unused_since = TIME_MAX, map_ptr = None, bodylen = 0, body = None\<rparr>"
  define d' where "d' = disk w (dir cache) @ [(f, Some (ls, data))]"
  define w' where "w' = w\<lparr>ents := (ents w)(p \<mapsto> ent),
      caches := (caches w)(c \<mapsto> cache\<lparr>entries := Some (sl @ [p])\<rparr>),
      disk := (disk w)(dir cache := d'), next_ptr := Suc p\<rparr>"
  have run: "consensus_cache_add w c ls data (Some f) = Inr (w', Some p)"
    using assms(1,2,4)
    by (simp add: consensus_cache_add_def storage_dir_save_labeled_to_file_def
        storage_dir_list_def config_lines_dup_def Let_def w'_def p_def ent_def d'_def)
  have e: "ents w' p = Some ent" by (simp add: w'_def)
  have c: "caches w' c = Some (cache\<lparr>entries := Some (sl @ [p])\<rparr>)" by (simp add: w'_def)
  have live: "\<forall>q\<in>set (sl @ [p]). ents w' q \<noteq> None"
    using assms(3) by (simp add: w'_def)
  have found: "\<exists>r q. consensus_cache_find_all [] w' c (Some k) v = Inr r \<and> p \<in> set r
             \<and> consensus_cache_find_first w' c (Some k) v = Inr (Some q)
             \<and> label_is (ents w') k v q"
    if kv: "(k, v) \<in> set ls" for k v
  proof -
    let ?F = "\<lambda>q. case ents w' q of None \<Rightarrow> False
        | Some e \<Rightarrow> \<not> can_remove e \<and> (case Some k of None \<Rightarrow> True
            | Some k \<Rightarrow> consensus_cache_entry_get_value e k = Some v)"
    define r where "r = filter ?F (sl @ [p])"
    have fa: "consensus_cache_find_all [] w' c (Some k) v = Inr r"
      using find_all_loop_eq [OF live, of "Some k" v "[]"] c
      by (simp add: consensus_cache_find_all_def r_def)
    have gv: "consensus_cache_entry_get_value ent k = Some v"
      using config_line_find_distinct [OF assms(5) kv]
      by (simp add: consensus_cache_entry_get_value_def ent_def)
    have pr: "p \<in> set r" using e gv by (simp add: r_def ent_def)
    then have ne: "r \<noteq> []" by auto
    then have "r ! 0 \<in> set r" by simp
    then have "r ! 0 \<in> set (filter ?F (sl @ [p]))" by (simp only: r_def)
    then have "r ! 0 \<in> {x \<in> set (sl @ [p]). ?F x}" by (simp only: set_filter)
    then have "?F (r ! 0)" by blast
    then have li: "label_is (ents w') k v (r ! 0)"
      by (auto simp: label_is_def get_value_map_of split: option.splits)
    have ff: "consensus_cache_find_first w' c (Some k) v = Inr (Some (r ! 0))"
      using fa ne by (simp add: consensus_cache_find_first_def)
    from fa pr ff li show ?thesis by blast
  qed
  have nf: "f \<notin> fst ` set (disk w (dir cache))"
    using assms(4) by (simp add: storage_dir_list_def)
  have mo: "map_of d' f = Some (Some (ls, data))"
    using nf by (simp add: d'_def map_add_Some_iff map_of_eq_None_iff)
  have gb: "consensus_cache_entry_get_body w' p =
      Inr (w'\<lparr>ents := (ents w')(p \<mapsto> ent\<lparr>map_ptr := Some data, body := Some data,
              bodylen := length data, unused_since := TIME_MAX\<rparr>)\<rparr>,
           0, Some (Some data, length data))"
    using e c mo
    by (simp add: consensus_cache_entry_get_body_def consensus_cache_entry_map_def
        storage_dir_map_labeled_def Let_def ent_def w'_def)
  have props: "refcnt ent = 2 \<and> unused_since ent = TIME_MAX
     \<and> labels ent = ls \<and> fname ent = f \<and> in_cache ent = Some c \<and> magic ent = CCE_MAGIC
     \<and> \<not> can_remove ent \<and> \<not> consensus_cache_entry_is_mapped ent"
    by (simp add: ent_def consensus_cache_entry_is_mapped_def)
  from run e props c found gb show ?thesis by blast
qed

theorem add_success_witness:
  "\<exists>w' p. consensus_cache_add ex_world 0 [(''type'', ''consensus''), (''flavor'', ''ns'')] [9, 9]
        (Some ''f4'') = Inr (w', Some p)
     \<and> (\<exists>ent. ents w' p = Some ent \<and> refcnt ent = 2 \<and> unused_since ent = TIME_MAX)
     \<and> (\<exists>r. consensus_cache_find_all [] w' 0 (Some ''flavor'') ''ns'' = Inr r \<and> p \<in> set r)
     \<and> (\<exists>w''. consensus_cache_entry_get_body w' p = Inr (w'', 0, Some (Some [9, 9], 2)))"
proof -
  let ?cache = "\<lparr>dir = ''cache'', entries = Some [2, 0, 1, 3]\<rparr>"
  have a1: "caches ex_world 0 = Some ?cache" by (simp add: ex_defs)
  have a2: "entries ?cache = Some [2, 0, 1, 3]" by simp
  have a3: "\<forall>p\<in>set [2, 0, 1, 3]. ents ex_world p \<noteq> None" by (simp add: ex_defs)
  have a4: "''f4'' \<notin> set (storage_dir_list (disk ex_world (dir ?cache)))"
    by (simp add: ex_defs storage_dir_list_def)
  have a5: "distinct (map fst [(''type'', ''consensus''), (''flavor'', ''ns'')])" by simp
  from add_success [OF a1 a2 a3 a4 a5, of "[9, 9]"]
  obtain w' p ent where r: "consensus_cache_add ex_world 0 [(''type'', ''consensus''), (''flavor'', ''ns'')]
        [9, 9] (Some ''f4'') = Inr (w', Some p)"
    and e: "ents w' p = Some ent" "refcnt ent = 2" "unused_since ent = TIME_MAX"
    and f: "\<forall>k v. (k, v) \<in> set [(''type'', ''consensus''), (''flavor'', ''ns'')] \<longrightarrow>
          (\<exists>r q. consensus_cache_find_all [] w' 0 (Some k) v = Inr r \<and> p \<in> set r
             \<and> consensus_cache_find_first w' 0 (Some k) v = Inr (Some q)
             \<and> label_is (ents w') k v q)"
    and g: "\<exists>w''. consensus_cache_entry_get_body w' p = Inr (w'', 0, Some (Some [9, 9], length [9, 9 :: 8 word]))"
    by blast
  from f have "\<exists>r. consensus_cache_find_all [] w' 0 (Some ''flavor'') ''ns'' = Inr r \<and> p \<in> set r"
    by fastforce
  with r e g show ?thesis by auto
qed

text \<open>
  Claim C6 as stated fails for labels with a repeated key, which the documentation of
  \<open>consensus_cache_add\<close> excludes: the lookup takes the first value of the key, so the
  entry added with \<open>k=a\<close> and \<open>k=b\<close>, returned at address 4, is not found under \<open>k=b\<close>.
\<close>
theorem add_duplicate_key_counterexample:
  "add_then_find_all ex_world 0 [(''k'', ''a''), (''k'', ''b'')] [9] (Some ''f4'') ''k'' ''b''
     = Some (Some 4, [])"
  by (simp add: add_then_find_all_def consensus_cache_add_def
      storage_dir_save_labeled_to_file_def config_lines_dup_def Let_def
      consensus_cache_find_all_def consensus_cache_entry_get_value_def config_line_find_def
      ex_defs)

subsection \<open>The invariant on \<open>unused_since\<close>\<close>

lemma entry_ok_incref: "entry_ok ent \<Longrightarrow> entry_ok (consensus_cache_entry_incref ent)"
  by (simp add: entry_ok_def unused_since_inv_def consensus_cache_entry_incref_def)

lemma entry_ok_unmap: "entry_ok ent \<Longrightarrow> entry_ok (consensus_cache_entry_unmap ent)"
  by (simp add: entry_ok_def unused_since_inv_def consensus_cache_entry_unmap_def Let_def)

lemma entry_ok_map: "entry_ok ent \<Longrightarrow> entry_ok (consensus_cache_entry_map d ent)"
  by (auto simp: entry_ok_def unused_since_inv_def consensus_cache_entry_map_def
      split: option.splits)

lemma entry_ok_decref:
  assumes "entry_ok ent" and "consensus_cache_entry_decref now ent = Some e'"
  shows "entry_ok e'"
proof (cases "0 < sint (refcnt ent)")
  case False
  with assms show ?thesis by (simp add: consensus_cache_entry_decref_def)
next
  case True
  have dec: "sint (refcnt ent - 1) = sint (refcnt ent) - 1"
    using True by (rule sint_pred32)
  show ?thesis
    using assms True dec
    by (auto simp: consensus_cache_entry_decref_def Let_def entry_ok_def unused_since_inv_def
        consensus_cache_entry_unmap_def split: if_splits)
qed

lemma entry_ok_released:
  assumes "entry_ok ent" and "released now ent = Some e'"
  shows "entry_ok e'"
proof (cases "0 < sint (refcnt ent)")
  case False
  with assms show ?thesis
    by (auto simp: released_def consensus_cache_entry_decref_def entry_ok_def
        unused_since_inv_def)
next
  case True
  have dec: "sint (refcnt ent - 1) = sint (refcnt ent) - 1"
    using True by (rule sint_pred32)
  show ?thesis
    using assms True dec
    by (auto simp: released_def consensus_cache_entry_decref_def Let_def entry_ok_def
        unused_since_inv_def split: if_splits)
qed

lemma heap_ok_upd: "heap_ok h \<Longrightarrow> entry_ok ent \<Longrightarrow> heap_ok (h(p \<mapsto> ent))"
  by (simp add: heap_ok_def)

lemma heap_ok_upd_opt:
  "heap_ok h \<Longrightarrow> (\<And>e. eo = Some e \<Longrightarrow> entry_ok e) \<Longrightarrow> heap_ok (h(p := eo))"
  by (simp add: heap_ok_def)

lemma heap_ok_at: "heap_ok h \<Longrightarrow> h p = Some ent \<Longrightarrow> entry_ok ent"
  by (simp add: heap_ok_def)

lemma heap_ok_unmap_lazy_loop:
  "heap_ok h \<Longrightarrow> unmap_lazy_loop cutoff sl h = Inr h' \<Longrightarrow> heap_ok h'"
proof (induction sl arbitrary: h)
  case Nil
  then show ?case by simp
next
  case (Cons p ps)
  from Cons.prems(2) obtain ent where ent: "h p = Some ent"
    by (cases "h p") simp_all
  have ok: "heap_ok (h(p \<mapsto> consensus_cache_entry_unmap ent))"
    using Cons.prems(1) ent by (intro heap_ok_upd entry_ok_unmap) (auto dest: heap_ok_at)
  from Cons.prems(2) ent
  have "unmap_lazy_loop cutoff ps h = Inr h'
      \<or> unmap_lazy_loop cutoff ps (h(p \<mapsto> consensus_cache_entry_unmap ent)) = Inr h'"
    by (simp split: if_splits)
  then show ?case
    using Cons.IH [OF Cons.prems(1)] Cons.IH [OF ok] by blast
qed

lemma heap_ok_clear_loop:
  "heap_ok h \<Longrightarrow> clear_loop now sl h = Inr h' \<Longrightarrow> heap_ok h'"
proof (induction sl arbitrary: h)
  case Nil
  then show ?case by simp
next
  case (Cons p ps)
  from Cons.prems(2) obtain ent where ent: "h p = Some ent"
    by (cases "h p") simp_all
  have ok: "heap_ok (h(p := released now ent))"
    using Cons.prems(1) ent
    by (intro heap_ok_upd_opt) (auto dest: heap_ok_at intro: entry_ok_released)
  from Cons.prems(2) ent
  have "clear_loop now ps (h(p := released now ent)) = Inr h'"
    by (simp add: decref_heap_def released_def)
  then show ?case using Cons.IH [OF ok] by blast
qed

lemma heap_ok_delete_pending_loop:
  "heap_ok h \<Longrightarrow> delete_pending_loop force now idx sl h d = Inr (sl', h', d') \<Longrightarrow> heap_ok h'"
proof (induction "length sl - idx" arbitrary: idx sl h d rule: less_induct)
  case less
  show ?case
  proof (cases "idx < length sl")
    case False
    with less.prems show ?thesis
      by (simp add: delete_pending_loop.simps [of force now idx sl h d])
  next
    case True
    from less.prems(2) True obtain ent where ent: "h (sl ! idx) = Some ent"
      by (cases "h (sl ! idx)") (simp_all add: delete_pending_loop.simps [of force now idx sl h d])
    let ?h1 = "h(sl ! idx := released now ent)"
    have ok: "heap_ok ?h1"
      using less.prems(1) ent
      by (intro heap_ok_upd_opt) (auto dest: heap_ok_at intro: entry_ok_released)
    from less.prems(2) True ent
    have "delete_pending_loop force now (Suc idx) sl h d = Inr (sl', h', d')
      \<or> delete_pending_loop force now idx (smartlist_del sl idx) ?h1
           (storage_dir_remove_file d (fname ent)) = Inr (sl', h', d')"
      by (subst (asm) delete_pending_loop.simps)
        (simp add: decref_heap_def released_def split: if_splits)
    then show ?thesis
    proof
      assume a: "delete_pending_loop force now (Suc idx) sl h d = Inr (sl', h', d')"
      have "length sl - Suc idx < length sl - idx" using True by simp
      from less.hyps [OF this less.prems(1) a] show ?thesis .
    next
      assume a: "delete_pending_loop force now idx (smartlist_del sl idx) ?h1
           (storage_dir_remove_file d (fname ent)) = Inr (sl', h', d')"
      have "length (smartlist_del sl idx) - idx < length sl - idx"
        using True by (simp add: smartlist_del_def)
      from less.hyps [OF this ok a] show ?thesis .
    qed
  qed
qed

lemma heap_ok_rescan_loop:
  "heap_ok h \<Longrightarrow> rescan_loop c d fs (sl, h, n) = (sl', h', n') \<Longrightarrow> heap_ok h'"
proof (induction fs arbitrary: sl h n)
  case Nil
  then show ?case by simp
next
  case (Cons f fs)
  show ?case
  proof (cases "storage_dir_map_labeled d f")
    case None
    with Cons.prems(2) have "rescan_loop c d fs (sl, h, n) = (sl', h', n')" by simp
    with Cons.IH [OF Cons.prems(1)] show ?thesis .
  next
    case (Some r)
    obtain m ls b k where r: "r = (m, ls, b, k)" by (cases r)
    let ?e = "\<lparr>magic = CCE_MAGIC, refcnt = 1, can_remove = False,
                       release_aggressively = False, fname = f, labels = ls,
                       in_cache = Some c, unused_since = TIME_MAX, map_ptr = None,
                       bodylen = 0, body = None\<rparr>"
    have ok: "heap_ok (h(n \<mapsto> ?e))"
      using Cons.prems(1) by (intro heap_ok_upd) (simp_all add: entry_ok_def unused_since_inv_def)
    from Cons.prems(2) Some r
    have "rescan_loop c d fs (sl @ [n], h(n \<mapsto> ?e), Suc n) = (sl', h', n')" by simp
    with Cons.IH [OF ok] show ?thesis .
  qed
qed

lemma heap_ok_delete_pending:
  assumes "heap_ok (ents w)" and "consensus_cache_delete_pending w c force = Inr w'"
  shows "heap_ok (ents w')"
proof -
  from assms(2) obtain cache sl where c: "caches w c = Some cache" "entries cache = Some sl"
    by (auto simp: consensus_cache_delete_pending_def split: option.splits)
  from assms(2) c obtain sl' h' d' where
    l: "delete_pending_loop force (approx_time w) 0 sl (ents w) (disk w (dir cache)) = Inr (sl', h', d')"
    and w': "ents w' = h'"
    by (auto simp: consensus_cache_delete_pending_def split: sum.splits)
  from heap_ok_delete_pending_loop [OF assms(1) l] w' show ?thesis by simp
qed

lemma heap_ok_clear:
  assumes "heap_ok (ents w)" and "consensus_cache_clear w c = Inr w'"
  shows "heap_ok (ents w')"
proof -
  from assms(2) obtain w1 where d: "consensus_cache_delete_pending w c False = Inr w1"
    by (auto simp: consensus_cache_clear_def split: sum.splits)
  have ok1: "heap_ok (ents w1)" using assms(1) d by (rule heap_ok_delete_pending)
  from assms(2) d obtain sl h where l: "clear_loop (approx_time w1) sl (ents w1) = Inr h"
    and w': "ents w' = h"
    by (auto simp: consensus_cache_clear_def split: sum.splits option.splits)
  from heap_ok_clear_loop [OF ok1 l] w' show ?thesis by simp
qed

lemma heap_ok_rescan:
  assumes "heap_ok (ents w)" and "consensus_cache_rescan w c = Inr w'"
  shows "heap_ok (ents w')"
proof -
  from assms(2) obtain cache where c: "caches w c = Some cache"
    by (cases "caches w c") (simp_all add: consensus_cache_rescan_def)
  define r0 where "r0 = (if entries cache \<noteq> None then consensus_cache_clear w c else Inr w)"
  from assms(2) c obtain w1 where r0: "r0 = Inr w1"
    by (cases r0) (simp_all add: consensus_cache_rescan_def r0_def)
  have ok1: "heap_ok (ents w1)"
  proof (cases "entries cache \<noteq> None")
    case True
    with r0 have "consensus_cache_clear w c = Inr w1" by (simp add: r0_def)
    with assms(1) show ?thesis by (rule heap_ok_clear)
  next
    case False
    with r0 have "w1 = w" by (simp add: r0_def)
    with assms(1) show ?thesis by simp
  qed
  from assms(2) c r0 obtain cache1 where c1: "caches w1 c = Some cache1"
    by (cases "caches w1 c") (simp_all add: consensus_cache_rescan_def r0_def)
  obtain sl h n where l: "rescan_loop c (disk w1 (dir cache1))
      (storage_dir_list (disk w1 (dir cache1))) ([], ents w1, next_ptr w1) = (sl, h, n)"
    by (rule prod_cases3)
  from assms(2) c r0 c1 l have "ents w' = h"
    by (auto simp: consensus_cache_rescan_def r0_def)
  with heap_ok_rescan_loop [OF ok1 l] show ?thesis by simp
qed

lemma heap_ok_add:
  assumes "heap_ok (ents w)" and "consensus_cache_add w c ls data pick = Inr (w', r)"
  shows "heap_ok (ents w')"
proof -
  let ?e = "\<lambda>f. \<lparr>magic = CCE_MAGIC, refcnt = 2, can_remove = False,
                                      release_aggressively = False, fname = f,
                                      labels = config_lines_dup ls, in_cache = Some c,
                                      unused_since = TIME_MAX, map_ptr = None, bodylen = 0,
                                      body = None\<rparr>"
  from assms(2) have "ents w' = ents w \<or> (\<exists>f. ents w' = (ents w)(next_ptr w \<mapsto> ?e f))"
    by (auto simp: consensus_cache_add_def Let_def
        split: option.splits prod.splits if_splits)
  moreover have "entry_ok (?e f)" for f by (simp add: entry_ok_def unused_since_inv_def)
  ultimately show ?thesis using assms(1) heap_ok_upd by metis
qed

lemma heap_ok_at_ptr:
  assumes "heap_ok (ents w)" and "at_ptr g w p = Inr w'" and "\<And>e. entry_ok e \<Longrightarrow> entry_ok (g e)"
  shows "heap_ok (ents w')"
proof -
  from assms(2) obtain ent where e: "ents w p = Some ent" and w': "ents w' = (ents w)(p \<mapsto> g ent)"
    by (auto simp: at_ptr_def split: option.splits)
  from assms(1) e have "entry_ok ent" by (rule heap_ok_at)
  then have "entry_ok (g ent)" by (rule assms(3))
  with assms(1) w' show ?thesis by (simp add: heap_ok_upd)
qed

lemma heap_ok_decref_ptr:
  assumes "heap_ok (ents w)" and "decref_ptr w po = Inr w'"
  shows "heap_ok (ents w')"
proof (cases po)
  case None
  with assms show ?thesis by (simp add: decref_ptr_def)
next
  case (Some p)
  from assms(2) Some obtain ent where e: "ents w p = Some ent"
    and w': "ents w' = (ents w)(p := consensus_cache_entry_decref (approx_time w) ent)"
    by (auto simp: decref_ptr_def decref_heap_def split: option.splits sum.splits)
  from assms(1) e have "entry_ok ent" by (rule heap_ok_at)
  then have "\<And>e'. consensus_cache_entry_decref (approx_time w) ent = Some e' \<Longrightarrow> entry_ok e'"
    by (rule entry_ok_decref)
  with assms(1) w' show ?thesis by (simp add: heap_ok_upd_opt)
qed

lemma heap_ok_get_body:
  assumes "heap_ok (ents w)" and "consensus_cache_entry_get_body w p = Inr (w', rc, out)"
  shows "heap_ok (ents w')"
proof -
  from assms(2) obtain ent where e: "ents w p = Some ent"
    by (cases "ents w p") (simp_all add: consensus_cache_entry_get_body_def)
  from assms(2) e
  have "ents w' = ents w \<or> (\<exists>d. ents w' = (ents w)(p \<mapsto> consensus_cache_entry_map d ent))"
    by (auto simp: consensus_cache_entry_get_body_def Let_def split: option.splits if_splits)
  moreover have "entry_ok (consensus_cache_entry_map d ent)" for d
    using assms(1) e by (intro entry_ok_map) (rule heap_ok_at)
  ultimately show ?thesis using assms(1) heap_ok_upd by metis
qed

lemma heap_ok_unmap_lazy:
  assumes "heap_ok (ents w)" and "consensus_cache_unmap_lazy w c cutoff = Inr w'"
  shows "heap_ok (ents w')"
proof -
  from assms(2) obtain sl h where l: "unmap_lazy_loop cutoff sl (ents w) = Inr h"
    and w': "ents w' = h"
    by (auto simp: consensus_cache_unmap_lazy_def split: option.splits sum.splits)
  from heap_ok_unmap_lazy_loop [OF assms(1) l] w' show ?thesis by simp
qed

lemma rescan_returns:
  assumes "caches w c = Some cache" and "entries cache = Some sl" and "distinct sl"
    and "\<forall>p\<in>set sl. ents w p \<noteq> None"
  shows "\<exists>w'. consensus_cache_rescan w c = Inr w'"
proof -
  from clear_run [OF assms] obtain w1 where r1: "consensus_cache_clear w c = Inr w1"
    and c1: "caches w1 c = Some (cache\<lparr>entries := None\<rparr>)"
    by simp
  obtain sl3 h3 n3 where "rescan_loop c (disk w1 (dir (cache\<lparr>entries := None\<rparr>)))
      (storage_dir_list (disk w1 (dir (cache\<lparr>entries := None\<rparr>)))) ([], ents w1, next_ptr w1)
      = (sl3, h3, n3)"
    by (rule prod_cases3)
  with assms(1,2) r1 c1 show ?thesis by (simp add: consensus_cache_rescan_def)
qed

text \<open>
  Claim C5. Take a state in which every allocated entry has a valid tag and satisfies
  the invariant: \<open>unused_since\<close> is finite only when the reference count is 1, the
  owning cache is present and the mapping is present. Then every allocated entry of the
  state that \<open>add\<close>, a rescan, \<open>incref\<close>, \<open>decref\<close>, \<open>get_body\<close>, \<open>unmap_lazy\<close> or
  \<open>delete_pending\<close> returns has a valid tag and satisfies the invariant again, whatever the
  arguments and whether or not the entry is still in a collection.
\<close>
theorem unused_since_invariant:
  assumes "heap_ok (ents w)"
  shows "(\<forall>w' r. consensus_cache_add w c ls data pick = Inr (w', r) \<longrightarrow> heap_ok (ents w'))
     \<and> (\<forall>w'. consensus_cache_rescan w c = Inr w' \<longrightarrow> heap_ok (ents w'))
     \<and> (\<forall>w'. incref_ptr w p = Inr w' \<longrightarrow> heap_ok (ents w'))
     \<and> (\<forall>w'. decref_ptr w po = Inr w' \<longrightarrow> heap_ok (ents w'))
     \<and> (\<forall>w' rc out. consensus_cache_entry_get_body w p = Inr (w', rc, out) \<longrightarrow> heap_ok (ents w'))
     \<and> (\<forall>w'. consensus_cache_unmap_lazy w c cutoff = Inr w' \<longrightarrow> heap_ok (ents w'))
     \<and> (\<forall>w'. consensus_cache_delete_pending w c force = Inr w' \<longrightarrow> heap_ok (ents w'))"
proof (intro conjI allI impI)
  fix w' r assume "consensus_cache_add w c ls data pick = Inr (w', r)"
  with assms show "heap_ok (ents w')" by (rule heap_ok_add)
next
  fix w' assume "consensus_cache_rescan w c = Inr w'"
  with assms show "heap_ok (ents w')" by (rule heap_ok_rescan)
next
  fix w' assume "incref_ptr w p = Inr w'"
  then have "at_ptr consensus_cache_entry_incref w p = Inr w'" by (simp only: incref_ptr_def)
  with assms show "heap_ok (ents w')" by (rule heap_ok_at_ptr) (rule entry_ok_incref)
next
  fix w' assume "decref_ptr w po = Inr w'"
  with assms show "heap_ok (ents w')" by (rule heap_ok_decref_ptr)
next
  fix w' rc out assume "consensus_cache_entry_get_body w p = Inr (w', rc, out)"
  with assms show "heap_ok (ents w')" by (rule heap_ok_get_body)
next
  fix w' assume "consensus_cache_unmap_lazy w c cutoff = Inr w'"
  with assms show "heap_ok (ents w')" by (rule heap_ok_unmap_lazy)
next
  fix w' assume "consensus_cache_delete_pending w c force = Inr w'"
  with assms show "heap_ok (ents w')" by (rule heap_ok_delete_pending)
qed

theorem unused_since_invariant_witness:
  "heap_ok (ents ex_world)
   \<and> (\<exists>w' r. consensus_cache_add ex_world 0 [(''k'', ''v'')] [9] (Some ''f4'') = Inr (w', r)
          \<and> heap_ok (ents w'))
   \<and> (\<exists>w'. consensus_cache_rescan ex_world 0 = Inr w' \<and> heap_ok (ents w'))
   \<and> (\<exists>w'. incref_ptr ex_world 3 = Inr w' \<and> heap_ok (ents w'))
   \<and> (\<exists>w'. decref_ptr ex_world (Some 1) = Inr w' \<and> heap_ok (ents w'))
   \<and> (\<exists>w' rc out. consensus_cache_entry_get_body ex_world 3 = Inr (w', rc, out)
          \<and> heap_ok (ents w'))
   \<and> (\<exists>w'. consensus_cache_unmap_lazy ex_world 0 1500 = Inr w' \<and> heap_ok (ents w'))
   \<and> (\<exists>w'. consensus_cache_delete_pending ex_world 0 True = Inr w' \<and> heap_ok (ents w'))"
proof -
  let ?cache = "\<lparr>dir = ''cache'', entries = Some [2, 0, 1, 3]\<rparr>"
  have a1: "caches ex_world 0 = Some ?cache" by (simp add: ex_defs)
  have a2: "entries ?cache = Some [2, 0, 1, 3]" by simp
  have a3: "distinct [2, 0, 1, 3 :: nat]" by simp
  have a4: "\<forall>p\<in>set [2, 0, 1, 3]. ents ex_world p \<noteq> None" by (simp add: ex_defs)
  have h0: "heap_ok (ents ex_world)"
    by (auto simp: heap_ok_def entry_ok_def unused_since_inv_def ex_defs split: if_splits)
  note inv = unused_since_invariant [OF h0, where c = 0 and ls = "[(''k'', ''v'')]"
      and data = "[9]" and pick = "Some ''f4''" and p = 3 and po = "Some 1"
      and cutoff = 1500 and force = True]
  have r_add: "\<exists>w' r. consensus_cache_add ex_world 0 [(''k'', ''v'')] [9] (Some ''f4'') = Inr (w', r)"
    using a1 by (simp add: consensus_cache_add_def storage_dir_save_labeled_to_file_def Let_def
        ex_world_def)
  have r_rescan: "\<exists>w'. consensus_cache_rescan ex_world 0 = Inr w'"
    using a1 a2 a3 a4 by (rule rescan_returns)
  have r_incref: "\<exists>w'. incref_ptr ex_world 3 = Inr w'"
    by (simp add: incref_ptr_def at_ptr_def ex_world_def)
  have r_decref: "\<exists>w'. decref_ptr ex_world (Some 1) = Inr w'"
    by (simp add: decref_ptr_def decref_heap_def ex_world_def)
  have r_body: "\<exists>w' rc out. consensus_cache_entry_get_body ex_world 3 = Inr (w', rc, out)"
    by (simp add: consensus_cache_entry_get_body_def Let_def ex_defs)
  have r_lazy: "\<exists>w'. consensus_cache_unmap_lazy ex_world 0 1500 = Inr w'"
    using a1 unmap_lazy_loop_spec [OF a4, of 1500]
    by (simp add: consensus_cache_unmap_lazy_def)
  have r_del: "\<exists>w'. consensus_cache_delete_pending ex_world 0 True = Inr w'"
    using delete_pending_run [OF a1 a2 a3 a4, of True] by blast
  from h0 inv r_add r_rescan r_incref r_decref r_body r_lazy r_del show ?thesis
    by blast
qed

end
